theory Spec2Isabelle
  imports Main
begin

section \<open>JavaScript values\<close>

text \<open>
  The records handled by the changelog writer are JavaScript data: the values that
  \<^verbatim>\<open>JSON.parse\<close> produces, together with \<^verbatim>\<open>undefined\<close>. Numbers are the
  integers that JavaScript holds exactly and prints with all their digits. An object is the
  list of its own enumerable properties in enumeration order; an array is the list of its
  elements followed by the named properties that were assigned to it. The callbacks of the
  options (transform, generateOn, finalizeContext, comparators) are HOL functions. A member
  access on data can also end in the prototype chain; what it finds there, a function or
  another object built into the runtime, is a \<open>JNative\<close> value, known by its name only.
\<close>

datatype jsval =
    JUndefined
  | JNull
  | JBool bool
  | JNum int
  | JStr string
  | JArr "jsval list" "(string \<times> jsval) list"
  | JObj "(string \<times> jsval) list"
  | JNative string

datatype error = TypeError | Thrown jsval

text \<open>
  The prototype chains belong to the runtime and are a parameter. \<open>inherited rt v k\<close> is
  what \<^verbatim>\<open>v[k]\<close> gives when \<open>k\<close> is not an own property of the value \<open>v\<close>: the member
  found on the prototype chain of \<open>v\<close> (for a built-in \<open>v\<close>, any member of \<open>v\<close>),
  \<^verbatim>\<open>undefined\<close> when there is none, or the error that a getter raises.
  \<open>native_text rt n\<close> is the string that the built-in \<open>n\<close> converts to.
\<close>

record runtime =
  inherited :: "jsval \<Rightarrow> string \<Rightarrow> error + jsval"
  native_text :: "string \<Rightarrow> string"

text \<open>Truthiness, as tested by \<^verbatim>\<open>if (x)\<close>, \<^verbatim>\<open>x ? a : b\<close>, \<^verbatim>\<open>!x\<close> and \<^verbatim>\<open>x || y\<close>.\<close>

fun truthy :: "jsval \<Rightarrow> bool" where
  "truthy JUndefined = False"
| "truthy JNull = False"
| "truthy (JBool b) = b"
| "truthy (JNum n) = (n \<noteq> 0)"
| "truthy (JStr s) = (s \<noteq> [])"
| "truthy (JArr xs ex) = True"
| "truthy (JObj ps) = True"
| "truthy (JNative n) = True"

fun nullish :: "jsval \<Rightarrow> bool" where
  "nullish JUndefined = True"
| "nullish JNull = True"
| "nullish v = False"

subsection \<open>Decimal numerals and array indices\<close>

definition digit_char :: "nat \<Rightarrow> char" where
  "digit_char d = ''0123456789'' ! d"

fun show_nat :: "nat \<Rightarrow> string" where
  "show_nat n = (if n < 10 then [digit_char n] else show_nat (n div 10) @ [digit_char (n mod 10)])"

definition show_int :: "int \<Rightarrow> string" where
  "show_int i = (if i < 0 then CHR ''-'' # show_nat (nat (- i)) else show_nat (nat i))"

definition digit_val :: "char \<Rightarrow> nat option" where
  "digit_val = map_of
     [(CHR ''0'', 0), (CHR ''1'', 1), (CHR ''2'', 2), (CHR ''3'', 3), (CHR ''4'', 4),
      (CHR ''5'', 5), (CHR ''6'', 6), (CHR ''7'', 7), (CHR ''8'', 8), (CHR ''9'', 9)]"

fun read_digits :: "nat \<Rightarrow> string \<Rightarrow> nat option" where
  "read_digits acc [] = Some acc"
| "read_digits acc (c # cs) =
     (case digit_val c of None \<Rightarrow> None | Some d \<Rightarrow> read_digits (10 * acc + d) cs)"

text \<open>
  A property name is an array index when it is the canonical decimal numeral of an integer
  below \<open>2^32 - 1\<close>. Such names are enumerated first, in ascending numeric order; all other
  names follow in the order in which they were created.
\<close>

definition array_index :: "string \<Rightarrow> nat option" where
  "array_index s =
     (if s = [] \<or> (hd s = CHR ''0'' \<and> tl s \<noteq> []) then None
      else (case read_digits 0 s of
              None \<Rightarrow> None
            | Some n \<Rightarrow> if n < 4294967295 then Some n else None))"

definition is_index :: "string \<Rightarrow> bool" where
  "is_index k = (array_index k \<noteq> None)"

definition index_value :: "string \<Rightarrow> nat" where
  "index_value k = (case array_index k of Some n \<Rightarrow> n | None \<Rightarrow> 0)"

text \<open>A list of property names with the array indices first, in ascending order.\<close>

fun index_keys_first :: "string list \<Rightarrow> bool" where
  "index_keys_first [] = True"
| "index_keys_first (k # ks) =
     (index_keys_first ks \<and>
      (if is_index k then list_all (\<lambda>k'. is_index k' \<longrightarrow> index_value k \<le> index_value k') ks
       else list_all (\<lambda>k'. \<not> is_index k') ks))"

subsection \<open>Own properties\<close>

text \<open>
  \<open>obj_put ps k v\<close> is the property list after \<^verbatim>\<open>o[k] = v\<close> on an ordinary object whose
  properties are \<open>ps\<close>: an existing property keeps its place, a new array index goes among
  the indices, any other new name goes last.
\<close>

fun insert_index :: "nat \<Rightarrow> string \<Rightarrow> 'v \<Rightarrow> (string \<times> 'v) list \<Rightarrow> (string \<times> 'v) list" where
  "insert_index n k v [] = [(k, v)]"
| "insert_index n k v ((k', v') # ps) =
     (case array_index k' of
        Some m \<Rightarrow> if m < n then (k', v') # insert_index n k v ps else (k, v) # (k', v') # ps
      | None \<Rightarrow> (k, v) # (k', v') # ps)"

fun replace_prop :: "string \<Rightarrow> 'v \<Rightarrow> (string \<times> 'v) list \<Rightarrow> (string \<times> 'v) list" where
  "replace_prop k v [] = []"
| "replace_prop k v ((k', v') # ps) =
     (if k' = k then (k, v) # ps else (k', v') # replace_prop k v ps)"

definition obj_put :: "(string \<times> 'v) list \<Rightarrow> string \<Rightarrow> 'v \<Rightarrow> (string \<times> 'v) list" where
  "obj_put ps k v =
     (case map_of ps k of
        Some old \<Rightarrow> replace_prop k v ps
      | None \<Rightarrow> (case array_index k of
                   Some n \<Rightarrow> insert_index n k v ps
                 | None \<Rightarrow> ps @ [(k, v)]))"

text \<open>The own enumerable properties that an object spread \<^verbatim>\<open>{...v}\<close> copies.\<close>

fun own_props :: "jsval \<Rightarrow> (string \<times> jsval) list" where
  "own_props (JObj ps) = ps"
| "own_props (JArr xs ex) = zip (map show_nat [0..<length xs]) xs @ ex"
| "own_props (JStr s) = zip (map show_nat [0..<length s]) (map (\<lambda>c. JStr [c]) s)"
| "own_props v = []"

definition spread_into :: "(string \<times> jsval) list \<Rightarrow> jsval \<Rightarrow> (string \<times> jsval) list" where
  "spread_into acc v = foldl (\<lambda>a (k, x). obj_put a k x) acc (own_props v)"

text \<open>The value of an own property of a list of properties, for the code's own records.\<close>

definition lookup_prop :: "(string \<times> jsval) list \<Rightarrow> string \<Rightarrow> jsval" where
  "lookup_prop ps k = (case map_of ps k of Some v \<Rightarrow> v | None \<Rightarrow> JUndefined)"

text \<open>
  \<open>js_read rt v k\<close> is the member access \<^verbatim>\<open>v[k]\<close>: a \<^verbatim>\<open>TypeError\<close> on
  \<^verbatim>\<open>undefined\<close> and \<^verbatim>\<open>null\<close>, the own property where there is one, and what the
  prototype chain gives otherwise.
\<close>

definition own_or_inherited ::
  "runtime \<Rightarrow> jsval \<Rightarrow> (string \<times> jsval) list \<Rightarrow> string \<Rightarrow> error + jsval" where
  "own_or_inherited rt v ps k = (case map_of ps k of Some x \<Rightarrow> Inr x | None \<Rightarrow> inherited rt v k)"

fun js_read :: "runtime \<Rightarrow> jsval \<Rightarrow> string \<Rightarrow> error + jsval" where
  "js_read rt JUndefined k = Inl TypeError"
| "js_read rt JNull k = Inl TypeError"
| "js_read rt (JObj ps) k = own_or_inherited rt (JObj ps) ps k"
| "js_read rt (JArr xs ex) k =
     (case array_index k of
        Some i \<Rightarrow> if i < length xs then Inr (xs ! i) else own_or_inherited rt (JArr xs ex) ex k
      | None \<Rightarrow> if k = ''length'' then Inr (JNum (int (length xs)))
                else own_or_inherited rt (JArr xs ex) ex k)"
| "js_read rt (JStr s) k =
     (case array_index k of
        Some i \<Rightarrow> if i < length s then Inr (JStr [s ! i]) else inherited rt (JStr s) k
      | None \<Rightarrow> if k = ''length'' then Inr (JNum (int (length s))) else inherited rt (JStr s) k)"
| "js_read rt (JBool b) k = inherited rt (JBool b) k"
| "js_read rt (JNum n) k = inherited rt (JNum n) k"
| "js_read rt (JNative n) k = inherited rt (JNative n) k"

fun has_own :: "jsval \<Rightarrow> string \<Rightarrow> bool" where
  "has_own (JObj ps) k = (k \<in> fst ` set ps)"
| "has_own (JArr xs ex) k =
     (case array_index k of
        Some i \<Rightarrow> i < length xs \<or> k \<in> fst ` set ex
      | None \<Rightarrow> k = ''length'' \<or> k \<in> fst ` set ex)"
| "has_own (JStr s) k =
     (case array_index k of Some i \<Rightarrow> i < length s | None \<Rightarrow> k = ''length'')"
| "has_own v k = False"

text \<open>
  A value has no member of a name when it is \<^verbatim>\<open>undefined\<close> or \<^verbatim>\<open>null\<close>, or when
  the name is neither an own property nor found on the prototype chain.
\<close>

definition lacks :: "runtime \<Rightarrow> jsval \<Rightarrow> string \<Rightarrow> bool" where
  "lacks rt v k = (nullish v \<or> (\<not> has_own v k \<and> inherited rt v k = Inr JUndefined))"

text \<open>String conversion, as applied to a computed property name and by \<^verbatim>\<open>JSON.parse\<close>.\<close>

fun join_with :: "string \<Rightarrow> string list \<Rightarrow> string" where
  "join_with sep [] = []"
| "join_with sep [s] = s"
| "join_with sep (s # t # ss) = s @ sep @ join_with sep (t # ss)"

fun to_string :: "runtime \<Rightarrow> jsval \<Rightarrow> string" where
  "to_string rt JUndefined = ''undefined''"
| "to_string rt JNull = ''null''"
| "to_string rt (JBool b) = (if b then ''true'' else ''false'')"
| "to_string rt (JNum n) = show_int n"
| "to_string rt (JStr s) = s"
| "to_string rt (JArr xs ex) =
     join_with '','' (map (\<lambda>x. if nullish x then [] else to_string rt x) xs)"
| "to_string rt (JObj ps) = ''[object Object]''"
| "to_string rt (JNative n) = native_text rt n"

subsection \<open>Splitting a path\<close>

text \<open>\<^verbatim>\<open>path.split('.')\<close>: the empty string splits into one empty segment.\<close>

fun split_on :: "char \<Rightarrow> string \<Rightarrow> string list" where
  "split_on d [] = [[]]"
| "split_on d (c # cs) =
     (if c = d then [] # split_on d cs
      else (case split_on d cs of
              [] \<Rightarrow> [[c]]
            | seg # segs \<Rightarrow> (c # seg) # segs))"

section \<open>The path accessor (lib/immutable.js)\<close>

text \<open>
  \<^verbatim>\<open>get\<close> reduces over the segments with
  \<^verbatim>\<open>(context, key) => context ? context[key] : context\<close>.
\<close>

fun get_parts :: "runtime \<Rightarrow> jsval \<Rightarrow> string list \<Rightarrow> error + jsval" where
  "get_parts rt context [] = Inr context"
| "get_parts rt context (key # parts) =
     (if truthy context
      then (case js_read rt context key of
              Inl e \<Rightarrow> Inl e
            | Inr v \<Rightarrow> get_parts rt v parts)
      else get_parts rt context parts)"

definition get :: "runtime \<Rightarrow> jsval \<Rightarrow> string \<Rightarrow> error + jsval" where
  "get rt context path = get_parts rt context (split_on CHR ''.'' path)"

text \<open>
  \<^verbatim>\<open>set\<close> takes its path as a string at the outer call and as the array of remaining
  segments in the recursion. \<open>set_parts\<close> is the function on the array; an empty array
  makes \<^verbatim>\<open>parts.shift()\<close> undefined, which returns the context like an empty segment.
\<close>

fun set_parts :: "runtime \<Rightarrow> jsval \<Rightarrow> string list \<Rightarrow> jsval \<Rightarrow> error + jsval" where
  "set_parts rt context [] v = Inr context"
| "set_parts rt context (key # parts) v =
     (if key = [] then Inr context
      else if parts \<noteq> []
      then (case js_read rt context key of
              Inl e \<Rightarrow> Inl e
            | Inr sub \<Rightarrow>
                (case set_parts rt sub parts v of
                   Inl e \<Rightarrow> Inl e
                 | Inr v' \<Rightarrow> Inr (JObj (obj_put (spread_into [] context) key v'))))
      else Inr (JObj (obj_put (spread_into [] context) key v)))"

definition set_path :: "runtime \<Rightarrow> jsval \<Rightarrow> string \<Rightarrow> jsval \<Rightarrow> error + jsval" where
  "set_path rt context path v = set_parts rt context (split_on CHR ''.'' path) v"

text \<open>
  Two readings of "an intermediate segment is missing", both over the segments before the
  last one. \<open>intermediate_missing\<close> holds when the value reached so far has no member of
  that name, whatever that value is; \<open>missing_on_truthy\<close> asks in addition that every value
  reached up to there is truthy.
\<close>

fun intermediate_missing :: "runtime \<Rightarrow> jsval \<Rightarrow> string list \<Rightarrow> bool" where
  "intermediate_missing rt c [] = False"
| "intermediate_missing rt c [k] = False"
| "intermediate_missing rt c (k # k' # ks) =
     (lacks rt c k \<or>
      (case js_read rt c k of
         Inl e \<Rightarrow> False
       | Inr v \<Rightarrow> intermediate_missing rt v (k' # ks)))"

fun missing_on_truthy :: "runtime \<Rightarrow> jsval \<Rightarrow> string list \<Rightarrow> bool" where
  "missing_on_truthy rt c [] = False"
| "missing_on_truthy rt c [k] = False"
| "missing_on_truthy rt c (k # k' # ks) =
     (truthy c \<and>
      (lacks rt c k \<or>
       (case js_read rt c k of
          Inl e \<Rightarrow> False
        | Inr v \<Rightarrow> missing_on_truthy rt v (k' # ks))))"

section \<open>Grouping (lib/util.js)\<close>

type_synonym 'a comparator = "'a \<Rightarrow> 'a \<Rightarrow> int"

text \<open>
  \<^verbatim>\<open>Array.prototype.sort\<close> with a comparator is stable: an element goes before the
  first element that the comparator puts strictly after it.
\<close>

fun insert_sorted :: "'a comparator \<Rightarrow> 'a \<Rightarrow> 'a list \<Rightarrow> 'a list" where
  "insert_sorted cmp x [] = [x]"
| "insert_sorted cmp x (y # ys) =
     (if cmp x y < 0 then x # y # ys else y # insert_sorted cmp x ys)"

definition js_sort :: "'a comparator \<Rightarrow> 'a list \<Rightarrow> 'a list" where
  "js_sort cmp xs = foldl (\<lambda>acc x. insert_sorted cmp x acc) [] xs"

definition sort_opt :: "'a comparator option \<Rightarrow> 'a list \<Rightarrow> 'a list" where
  "sort_opt c xs = (case c of None \<Rightarrow> xs | Some cmp \<Rightarrow> js_sort cmp xs)"

record commit_group =
  cg_title :: jsval
  cg_commits :: "jsval list"

record note_group =
  ng_title :: jsval
  ng_notes :: "jsval list"

text \<open>\<^verbatim>\<open>commit[groupBy] || ''\<close>, converted to the property name it is used as.\<close>

definition group_key :: "runtime \<Rightarrow> string \<Rightarrow> jsval \<Rightarrow> error + string" where
  "group_key rt groupBy commit =
     (case js_read rt commit groupBy of
        Inl e \<Rightarrow> Inl e
      | Inr v \<Rightarrow> Inr (to_string rt (if truthy v then v else JStr [])))"

text \<open>
  The accumulator of \<^verbatim>\<open>getCommitGroups\<close> is an object literal whose properties are the
  arrays of commits. \<^verbatim>\<open>groups[key]\<close> on a name that is not yet a group finds what the
  object inherits from \<^verbatim>\<open>Object.prototype\<close>; when that is truthy the code calls
  \<^verbatim>\<open>push\<close> on it, which raises a \<^verbatim>\<open>TypeError\<close>, as no inherited member is an
  array.
\<close>

definition groups_value :: "(string \<times> jsval list) list \<Rightarrow> jsval" where
  "groups_value groups = JObj (map (\<lambda>e. (fst e, JArr (snd e) [])) groups)"

fun group_reduce ::
  "runtime \<Rightarrow> string \<Rightarrow> (string \<times> jsval list) list \<Rightarrow> jsval list
     \<Rightarrow> error + (string \<times> jsval list) list" where
  "group_reduce rt groupBy groups [] = Inr groups"
| "group_reduce rt groupBy groups (commit # rest) =
     (case group_key rt groupBy commit of
        Inl e \<Rightarrow> Inl e
      | Inr key \<Rightarrow>
          (case map_of groups key of
             Some cs \<Rightarrow> group_reduce rt groupBy (obj_put groups key (cs @ [commit])) rest
           | None \<Rightarrow>
               (case inherited rt (groups_value groups) key of
                  Inl e \<Rightarrow> Inl e
                | Inr found \<Rightarrow>
                    if truthy found then Inl TypeError
                    else group_reduce rt groupBy (obj_put groups key [commit]) rest)))"

text \<open>The title of a group: \<^verbatim>\<open>false\<close> for the empty key.\<close>

definition title_of_key :: "string \<Rightarrow> jsval" where
  "title_of_key key = (if key = [] then JBool False else JStr key)"

definition group_entry :: "jsval comparator option \<Rightarrow> string \<times> jsval list \<Rightarrow> commit_group" where
  "group_entry commitsSort e =
     \<lparr> cg_title = title_of_key (fst e), cg_commits = sort_opt commitsSort (snd e) \<rparr>"

definition getCommitGroups ::
  "runtime \<Rightarrow> string \<Rightarrow> jsval list \<Rightarrow> commit_group comparator option
     \<Rightarrow> jsval comparator option \<Rightarrow> error + commit_group list" where
  "getCommitGroups rt groupBy commits groupsSort commitsSort =
     (case group_reduce rt groupBy [] commits of
        Inl e \<Rightarrow> Inl e
      | Inr commitGroupsObj \<Rightarrow>
          Inr (sort_opt groupsSort (map (group_entry commitsSort) commitGroupsObj)))"

text \<open>
  The grouping key as the specification words it, \<^verbatim>\<open>commit[groupField] ?? ''\<close>: only
  \<^verbatim>\<open>undefined\<close> and \<^verbatim>\<open>null\<close> are replaced by the empty string.
\<close>

definition spec_group_key :: "runtime \<Rightarrow> string \<Rightarrow> jsval \<Rightarrow> error + string" where
  "spec_group_key rt groupBy commit =
     (case js_read rt commit groupBy of
        Inl e \<Rightarrow> Inl e
      | Inr v \<Rightarrow> Inr (to_string rt (if nullish v then JStr [] else v)))"

text \<open>
  Strict equality \<^verbatim>\<open>===\<close> compares primitives by value. Two objects are equal only when
  they are the same object; values carry no identity here, so an object or array is taken
  to differ from every other operand. A built-in is the same as itself.
\<close>

fun primitive :: "jsval \<Rightarrow> bool" where
  "primitive (JArr xs ex) = False"
| "primitive (JObj ps) = False"
| "primitive (JNative n) = False"
| "primitive v = True"

definition strict_eq :: "jsval \<Rightarrow> jsval \<Rightarrow> bool" where
  "strict_eq a b = (case a of JArr xs ex \<Rightarrow> False | JObj ps \<Rightarrow> False | other \<Rightarrow> a = b)"

definition push_note :: "jsval \<Rightarrow> jsval \<Rightarrow> note_group \<Rightarrow> note_group" where
  "push_note title note g =
     (if strict_eq (ng_title g) title then g\<lparr> ng_notes := ng_notes g @ [note] \<rparr> else g)"

fun note_reduce :: "runtime \<Rightarrow> note_group list \<Rightarrow> jsval list \<Rightarrow> error + note_group list" where
  "note_reduce rt retGroups [] = Inr retGroups"
| "note_reduce rt retGroups (note # rest) =
     (case js_read rt note ''title'' of
        Inl e \<Rightarrow> Inl e
      | Inr title \<Rightarrow>
          (let titleExists = list_ex (\<lambda>g. strict_eq (ng_title g) title) retGroups;
               pushed = map (push_note title note) retGroups
           in if titleExists then note_reduce rt pushed rest
              else note_reduce rt (pushed @ [\<lparr> ng_title = title, ng_notes = [note] \<rparr>]) rest))"

definition getNoteGroups ::
  "runtime \<Rightarrow> jsval list \<Rightarrow> note_group comparator option \<Rightarrow> jsval comparator option
     \<Rightarrow> error + note_group list" where
  "getNoteGroups rt notes noteGroupsSort notesSort =
     (case note_reduce rt [] notes of
        Inl e \<Rightarrow> Inl e
      | Inr retGroups \<Rightarrow>
          Inr (map (\<lambda>g. g\<lparr> ng_notes := sort_opt notesSort (ng_notes g) \<rparr>)
                   (sort_opt noteGroupsSort retGroups)))"

text \<open>The values of a list in the order of their first occurrence.\<close>

fun first_seen :: "'a list \<Rightarrow> 'a list" where
  "first_seen [] = []"
| "first_seen (x # xs) = x # filter (\<lambda>y. y \<noteq> x) (first_seen xs)"

text \<open>The notes that carry a given title, and the commits that carry a given key.\<close>

definition notes_titled :: "runtime \<Rightarrow> jsval \<Rightarrow> jsval list \<Rightarrow> jsval list" where
  "notes_titled rt t notes = filter (\<lambda>n. js_read rt n ''title'' = Inr t) notes"

definition commits_keyed :: "runtime \<Rightarrow> string \<Rightarrow> string \<Rightarrow> jsval list \<Rightarrow> jsval list" where
  "commits_keyed rt groupBy k commits = filter (\<lambda>c. group_key rt groupBy c = Inr k) commits"

section \<open>Normalising a chunk (lib/util.js)\<close>

text \<open>
  \<^verbatim>\<open>cloneCommit\<close> copies arrays element by element with \<^verbatim>\<open>map\<close>, which leaves the named
  properties of an array behind, and objects property by property. A chunk is data: it
  holds no built-in, and no own property named \<^verbatim>\<open>__proto__\<close>, which the assignment in
  the copy would turn into the prototype of the copy.
\<close>

fun cloneCommit :: "jsval \<Rightarrow> jsval" where
  "cloneCommit (JArr xs ex) = JArr (map cloneCommit xs) []"
| "cloneCommit (JObj ps) =
     JObj (foldl (\<lambda>acc kv. obj_put acc (fst kv) (cloneCommit (snd kv))) [] ps)"
| "cloneCommit v = v"

text \<open>
  The transform option: a function of the commit and the context, a map from paths to
  literals or functions of the value and the path (in the enumeration order of its
  entries), or nothing.
\<close>

datatype field_rule =
    Compute "jsval \<Rightarrow> string \<Rightarrow> error + jsval"
  | Literal jsval

datatype transform =
    TFunction "jsval \<Rightarrow> jsval \<Rightarrow> error + jsval"
  | TFields "(string \<times> field_rule) list"
  | TAbsent

text \<open>
  \<^verbatim>\<open>JSON.parse\<close> belongs to the runtime and is a parameter: \<open>None\<close> is its
  \<^verbatim>\<open>SyntaxError\<close>, which the empty \<^verbatim>\<open>catch\<close> discards. It converts its argument
  to a string first.
\<close>

definition decode :: "runtime \<Rightarrow> (string \<Rightarrow> jsval option) \<Rightarrow> jsval \<Rightarrow> jsval" where
  "decode rt json_parse chunk =
     (case json_parse (to_string rt chunk) of Some v \<Rightarrow> v | None \<Rightarrow> chunk)"

text \<open>
  \<^verbatim>\<open>commit.raw = chunk\<close> in module code, which is strict: the assignment raises a
  \<^verbatim>\<open>TypeError\<close> on every primitive. On a built-in the property is stored in the
  runtime, which the value does not show.
\<close>

fun set_raw :: "jsval \<Rightarrow> jsval \<Rightarrow> error + jsval" where
  "set_raw (JObj ps) chunk = Inr (JObj (obj_put ps ''raw'' chunk))"
| "set_raw (JArr xs ex) chunk = Inr (JArr xs (obj_put ex ''raw'' chunk))"
| "set_raw (JNative n) chunk = Inr (JNative n)"
| "set_raw v chunk = Inl TypeError"

fun apply_rules :: "runtime \<Rightarrow> jsval \<Rightarrow> (string \<times> field_rule) list \<Rightarrow> error + jsval" where
  "apply_rules rt commit [] = Inr commit"
| "apply_rules rt commit ((path, el) # rules) =
     (case get rt commit path of
        Inl e \<Rightarrow> Inl e
      | Inr old \<Rightarrow>
          (case (case el of Compute f \<Rightarrow> f old path | Literal l \<Rightarrow> Inr l) of
             Inl e \<Rightarrow> Inl e
           | Inr v \<Rightarrow>
               (case set_path rt commit path v of
                  Inl e \<Rightarrow> Inl e
                | Inr commit' \<Rightarrow> apply_rules rt commit' rules)))"

definition processCommit ::
  "runtime \<Rightarrow> (string \<Rightarrow> jsval option) \<Rightarrow> jsval \<Rightarrow> transform \<Rightarrow> jsval \<Rightarrow> error + jsval" where
  "processCommit rt json_parse chunk0 tr context =
     (let chunk = decode rt json_parse chunk0;
          commit = cloneCommit chunk
      in case tr of
           TFunction f \<Rightarrow>
             (case f commit context of
                Inl e \<Rightarrow> Inl e
              | Inr commit' \<Rightarrow> if truthy commit' then set_raw commit' chunk else Inr commit')
         | TFields rules \<Rightarrow>
             (case apply_rules rt commit rules of
                Inl e \<Rightarrow> Inl e
              | Inr commit' \<Rightarrow> set_raw commit' chunk)
         | TAbsent \<Rightarrow> set_raw commit chunk)"

section \<open>Assembling the context and rendering (lib/util.js)\<close>

text \<open>
  The collaborators that live outside the repository are parameters: the prototype chains
  of the runtime, the JSON parser, the two functions of the semver library
  (\<open>semver_valid v\<close> is whether \<^verbatim>\<open>semver.valid(v)\<close> is truthy), the filter of reverted
  commits and the compiled template.
\<close>

record env =
  runtime :: runtime
  json_parse :: "string \<Rightarrow> jsval option"
  semver_valid :: "jsval \<Rightarrow> bool"
  semver_patch :: "jsval \<Rightarrow> int"
  filter_reverted :: "jsval list \<Rightarrow> jsval list"
  render :: "jsval \<Rightarrow> error + string"

text \<open>
  The boundary predicate is given as a function of the key commit, the open group and the
  context, as the name of a field, or as anything else.
\<close>

datatype generate_on =
    GPredicate "jsval \<Rightarrow> jsval list \<Rightarrow> jsval \<Rightarrow> error + bool"
  | GField string
  | GOther

text \<open>
  The options after \<^verbatim>\<open>finalize\<close> has filled in the defaults. The templates are
  compiled into \<open>render\<close>, and the \<^verbatim>\<open>debug\<close> sink has no part in the result.
\<close>

record options =
  groupBy :: string
  commitGroupsSort :: "commit_group comparator option"
  commitsSort :: "jsval comparator option"
  noteGroupsSort :: "note_group comparator option"
  notesSort :: "jsval comparator option"
  generateOn :: generate_on
  finalizeContext :: "jsval \<Rightarrow> jsval list \<Rightarrow> jsval \<Rightarrow> jsval list \<Rightarrow> error + jsval"
  reverse :: bool
  includeDetails :: bool
  ignoreReverted :: bool
  doFlush :: bool
  transform :: transform

definition commit_group_value :: "commit_group \<Rightarrow> jsval" where
  "commit_group_value g = JObj [(''title'', cg_title g), (''commits'', JArr (cg_commits g) [])]"

definition note_group_value :: "note_group \<Rightarrow> jsval" where
  "note_group_value g = JObj [(''title'', ng_title g), (''notes'', JArr (ng_notes g) [])]"

definition getExtraContext ::
  "runtime \<Rightarrow> jsval list \<Rightarrow> jsval list \<Rightarrow> options \<Rightarrow> error + jsval" where
  "getExtraContext rt commits notes opts =
     (case getCommitGroups rt (groupBy opts) commits (commitGroupsSort opts) (commitsSort opts) of
        Inl e \<Rightarrow> Inl e
      | Inr cgs \<Rightarrow>
          (case getNoteGroups rt notes (noteGroupsSort opts) (notesSort opts) of
             Inl e \<Rightarrow> Inl e
           | Inr ngs \<Rightarrow>
               Inr (JObj [(''commitGroups'', JArr (map commit_group_value cgs) []),
                          (''noteGroups'', JArr (map note_group_value ngs) [])])))"

text \<open>
  One step of \<^verbatim>\<open>filteredCommits.map\<close>: the commit with its notes replaced by annotated
  copies, and those copies, which are also pushed onto the flat list of notes.
\<close>

definition annotate_note :: "jsval \<Rightarrow> jsval \<Rightarrow> jsval" where
  "annotate_note commit note = JObj (obj_put (spread_into [] note) ''commit'' commit)"

definition annotate_commit :: "runtime \<Rightarrow> jsval \<Rightarrow> error + (jsval \<times> jsval list)" where
  "annotate_commit rt commit =
     (case js_read rt commit ''notes'' of
        Inl e \<Rightarrow> Inl e
      | Inr (JArr ns ex) \<Rightarrow>
          (let commitNotes = map (annotate_note commit) ns
           in Inr (JObj (obj_put (spread_into [] commit) ''notes'' (JArr commitNotes [])),
                   commitNotes))
      | Inr other \<Rightarrow> Inl TypeError)"

fun annotate_commits :: "runtime \<Rightarrow> jsval list \<Rightarrow> error + (jsval list \<times> jsval list)" where
  "annotate_commits rt [] = Inr ([], [])"
| "annotate_commits rt (commit # rest) =
     (case annotate_commit rt commit of
        Inl e \<Rightarrow> Inl e
      | Inr (commit', commitNotes) \<Rightarrow>
          (case annotate_commits rt rest of
             Inl e \<Rightarrow> Inl e
           | Inr (rest', notes) \<Rightarrow> Inr (commit' # rest', commitNotes @ notes)))"

definition date_override ::
  "runtime \<Rightarrow> jsval \<Rightarrow> (string \<times> jsval) list \<Rightarrow> error + (string \<times> jsval) list" where
  "date_override rt keyCommit context =
     (if truthy keyCommit
      then (case js_read rt keyCommit ''committerDate'' of
              Inl e \<Rightarrow> Inl e
            | Inr d \<Rightarrow> Inr (if truthy d then obj_put context ''date'' d else context))
      else Inr context)"

text \<open>
  The step on \<^verbatim>\<open>isPatch\<close> reads \<^verbatim>\<open>version\<close> and \<^verbatim>\<open>isPatch\<close> from the record that the
  code has just built; neither is a name of a member of \<^verbatim>\<open>Object.prototype\<close>.
\<close>

definition patch_flag :: "env \<Rightarrow> (string \<times> jsval) list \<Rightarrow> (string \<times> jsval) list" where
  "patch_flag env context =
     (if truthy (lookup_prop context ''version'') \<and> semver_valid env (lookup_prop context ''version'')
      then obj_put context ''isPatch''
             (if truthy (lookup_prop context ''isPatch'') then lookup_prop context ''isPatch''
              else JBool (semver_patch env (lookup_prop context ''version'') \<noteq> 0))
      else context)"

text \<open>
  The three spreads \<^verbatim>\<open>{...context, ...keyCommit, ...getExtraContext(...)}\<close> followed by
  the assignment of the date.
\<close>

definition merge_context ::
  "runtime \<Rightarrow> jsval \<Rightarrow> jsval \<Rightarrow> jsval \<Rightarrow> error + (string \<times> jsval) list" where
  "merge_context rt context keyCommit extra =
     date_override rt keyCommit
       (spread_into (spread_into (spread_into [] context) keyCommit) extra)"

text \<open>
  \<open>assemble\<close> is \<^verbatim>\<open>generate\<close> up to the call of \<^verbatim>\<open>finalizeContext\<close>: the filtered and
  annotated commits together with the context that the hook receives.
\<close>

definition assemble ::
  "env \<Rightarrow> options \<Rightarrow> jsval list \<Rightarrow> jsval \<Rightarrow> jsval \<Rightarrow> error + (jsval list \<times> jsval)" where
  "assemble env opts commits context keyCommit =
     (let filtered = (if ignoreReverted opts then filter_reverted env commits else commits)
      in case annotate_commits (runtime env) filtered of
           Inl e \<Rightarrow> Inl e
         | Inr (filteredCommits, notes) \<Rightarrow>
             (case getExtraContext (runtime env) filteredCommits notes opts of
                Inl e \<Rightarrow> Inl e
              | Inr extra \<Rightarrow>
                  (case merge_context (runtime env) context keyCommit extra of
                     Inl e \<Rightarrow> Inl e
                   | Inr merged \<Rightarrow> Inr (filteredCommits, JObj (patch_flag env merged)))))"

definition generate ::
  "env \<Rightarrow> options \<Rightarrow> jsval list \<Rightarrow> jsval \<Rightarrow> jsval \<Rightarrow> error + string" where
  "generate env opts commits context keyCommit =
     (case assemble env opts commits context keyCommit of
        Inl e \<Rightarrow> Inl e
      | Inr (filteredCommits, context') \<Rightarrow>
          (case finalizeContext opts context' filteredCommits keyCommit commits of
             Inl e \<Rightarrow> Inl e
           | Inr final \<Rightarrow> render env final))"

section \<open>The generator of changelog entries (createChangelogAsyncGeneratorFromCommits)\<close>

text \<open>The default of the \<^verbatim>\<open>generateOn\<close> option: \<^verbatim>\<open>commit => semverValid(commit.version)\<close>.\<close>

definition default_generateOn :: "env \<Rightarrow> jsval \<Rightarrow> jsval list \<Rightarrow> jsval \<Rightarrow> error + bool" where
  "default_generateOn env commit commitsGroup context =
     (case js_read (runtime env) commit ''version'' of
        Inl e \<Rightarrow> Inl e
      | Inr v \<Rightarrow> Inr (semver_valid env v))"

text \<open>The predicate that \<^verbatim>\<open>finalize\<close> derives from the option.\<close>

fun resolve_generateOn ::
  "runtime \<Rightarrow> generate_on \<Rightarrow> jsval \<Rightarrow> jsval list \<Rightarrow> jsval \<Rightarrow> error + bool" where
  "resolve_generateOn rt (GPredicate f) commit commitsGroup context =
     f commit commitsGroup context"
| "resolve_generateOn rt (GField name) commit commitsGroup context =
     (case js_read rt commit name of
        Inl e \<Rightarrow> Inl e
      | Inr v \<Rightarrow> Inr (v \<noteq> JUndefined))"
| "resolve_generateOn rt GOther commit commitsGroup context = Inr False"

record engine_state =
  commitsGroup :: "jsval list"
  neverGenerated :: bool
  savedKeyCommit :: jsval
  firstRelease :: bool

definition initial_state :: engine_state where
  "initial_state =
     \<lparr> commitsGroup = [], neverGenerated = True, savedKeyCommit = JUndefined, firstRelease = True \<rparr>"

datatype emission = Plain string | Details string jsval

definition yield :: "options \<Rightarrow> string \<Rightarrow> jsval \<Rightarrow> emission" where
  "yield opts result keyCommit =
     (if includeDetails opts then Details result keyCommit else Plain result)"

definition push_commit :: "jsval \<Rightarrow> engine_state \<Rightarrow> engine_state" where
  "push_commit commit s =
     (if truthy commit then s\<lparr> commitsGroup := commitsGroup s @ [commit] \<rparr> else s)"

text \<open>
  The body of the \<^verbatim>\<open>for await\<close> loop for one chunk: the state after it and the values
  it yields, or the error that ends the generator.
\<close>

definition reverse_step ::
  "env \<Rightarrow> options \<Rightarrow> jsval \<Rightarrow> engine_state \<Rightarrow> jsval \<Rightarrow> jsval
     \<Rightarrow> error + (engine_state \<times> emission list)" where
  "reverse_step env opts context s commit keyCommit =
     (let s1 = push_commit commit s
      in case resolve_generateOn (runtime env) (generateOn opts) keyCommit (commitsGroup s1)
                context of
           Inl e \<Rightarrow> Inl e
         | Inr False \<Rightarrow> Inr (s1, [])
         | Inr True \<Rightarrow>
             (case generate env opts (commitsGroup s1) context keyCommit of
                Inl e \<Rightarrow> Inl e
              | Inr result \<Rightarrow>
                  Inr (s1\<lparr> neverGenerated := False, commitsGroup := [] \<rparr>,
                       [yield opts result keyCommit])))"

definition forward_step ::
  "env \<Rightarrow> options \<Rightarrow> jsval \<Rightarrow> engine_state \<Rightarrow> jsval \<Rightarrow> jsval
     \<Rightarrow> error + (engine_state \<times> emission list)" where
  "forward_step env opts context s commit keyCommit =
     (case resolve_generateOn (runtime env) (generateOn opts) keyCommit (commitsGroup s)
             context of
        Inl e \<Rightarrow> Inl e
      | Inr False \<Rightarrow> Inr (push_commit commit s, [])
      | Inr True \<Rightarrow>
          (case generate env opts (commitsGroup s) context (savedKeyCommit s) of
             Inl e \<Rightarrow> Inl e
           | Inr result \<Rightarrow>
               Inr (push_commit commit
                      (s\<lparr> neverGenerated := False, firstRelease := False,
                          commitsGroup := [], savedKeyCommit := keyCommit \<rparr>),
                    (if \<not> firstRelease s \<or> doFlush opts
                     then [yield opts result (savedKeyCommit s)] else []))))"

definition step ::
  "env \<Rightarrow> options \<Rightarrow> jsval \<Rightarrow> engine_state \<Rightarrow> jsval \<Rightarrow> error + (engine_state \<times> emission list)" where
  "step env opts context s chunk =
     (case processCommit (runtime env) (json_parse env) chunk (transform opts) context of
        Inl e \<Rightarrow> Inl e
      | Inr commit \<Rightarrow>
          (let keyCommit = (if truthy commit then commit else chunk)
           in if reverse opts then reverse_step env opts context s commit keyCommit
              else forward_step env opts context s commit keyCommit))"

text \<open>
  The loop over the input: the values yielded so far, and the state at the end of the
  input or the error that stopped the loop.
\<close>

fun run_loop ::
  "env \<Rightarrow> options \<Rightarrow> jsval \<Rightarrow> engine_state \<Rightarrow> jsval list
     \<Rightarrow> emission list \<times> (error + engine_state)" where
  "run_loop env opts context s [] = ([], Inr s)"
| "run_loop env opts context s (chunk # chunks) =
     (case step env opts context s chunk of
        Inl e \<Rightarrow> ([], Inl e)
      | Inr (s', out) \<Rightarrow>
          (let (later, r) = run_loop env opts context s' chunks in (out @ later, r)))"

text \<open>What follows the loop: nothing, or the rendering of what is left in the group.\<close>

definition finish :: "env \<Rightarrow> options \<Rightarrow> jsval \<Rightarrow> engine_state \<Rightarrow> error + emission list" where
  "finish env opts context s =
     (if \<not> doFlush opts \<and> (reverse opts \<or> neverGenerated s) then Inr []
      else (case generate env opts (commitsGroup s) context (savedKeyCommit s) of
              Inl e \<Rightarrow> Inl e
            | Inr result \<Rightarrow> Inr [yield opts result (savedKeyCommit s)]))"

text \<open>
  \<^verbatim>\<open>createChangelogAsyncGeneratorFromCommits\<close> on a finite input, after \<^verbatim>\<open>finalize\<close>:
  everything it yields, and the error it ends with, if any.
\<close>

definition createChangelog ::
  "env \<Rightarrow> options \<Rightarrow> jsval \<Rightarrow> jsval list \<Rightarrow> emission list \<times> error option" where
  "createChangelog env opts context chunks =
     (case run_loop env opts context initial_state chunks of
        (out, Inl e) \<Rightarrow> (out, Some e)
      | (out, Inr s) \<Rightarrow>
          (case finish env opts context s of
             Inl e \<Rightarrow> (out, Some e)
           | Inr flushed \<Rightarrow> (out @ flushed, None)))"

text \<open>
  Whether the boundary predicate holds at a chunk, on the group it is shown there, and the
  list of these answers along a run.
\<close>

definition boundary_hit :: "env \<Rightarrow> options \<Rightarrow> jsval \<Rightarrow> engine_state \<Rightarrow> jsval \<Rightarrow> bool" where
  "boundary_hit env opts context s chunk =
     (case processCommit (runtime env) (json_parse env) chunk (transform opts) context of
        Inl e \<Rightarrow> False
      | Inr commit \<Rightarrow>
          resolve_generateOn (runtime env) (generateOn opts)
            (if truthy commit then commit else chunk)
            (commitsGroup (if reverse opts then push_commit commit s else s)) context = Inr True)"

fun boundary_flags :: "env \<Rightarrow> options \<Rightarrow> jsval \<Rightarrow> engine_state \<Rightarrow> jsval list \<Rightarrow> bool list" where
  "boundary_flags env opts context s [] = []"
| "boundary_flags env opts context s (chunk # chunks) =
     (case step env opts context s chunk of
        Inl e \<Rightarrow> []
      | Inr (s', out) \<Rightarrow>
          boundary_hit env opts context s chunk # boundary_flags env opts context s' chunks)"

section \<open>Collaborators and options for concrete runs\<close>

text \<open>
  The runtime of the concrete runs is a fragment of a standard one. Every value inherits
  the members of \<^verbatim>\<open>Object.prototype\<close>: \<^verbatim>\<open>constructor\<close> is the built-in constructor
  of the kind of value, \<^verbatim>\<open>__proto__\<close> is the prototype object, and the others are
  built-in functions, named as the member. A built-in function has a \<^verbatim>\<open>name\<close>, and
  reading \<^verbatim>\<open>caller\<close> or \<^verbatim>\<open>arguments\<close> on it raises a \<^verbatim>\<open>TypeError\<close>, as the
  accessors of \<^verbatim>\<open>Function.prototype\<close> prescribe. The other members of the built-in
  prototypes, the methods of strings and arrays among them, are left out: no concrete run
  reads one.
\<close>

definition object_prototype_members :: "string list" where
  "object_prototype_members =
     [''constructor'', ''__defineGetter__'', ''__defineSetter__'', ''hasOwnProperty'',
      ''__lookupGetter__'', ''__lookupSetter__'', ''isPrototypeOf'', ''propertyIsEnumerable'',
      ''toString'', ''valueOf'', ''__proto__'', ''toLocaleString'']"

definition constructor_name :: "jsval \<Rightarrow> string" where
  "constructor_name v =
     (case v of
        JObj ps \<Rightarrow> ''Object''
      | JArr xs ex \<Rightarrow> ''Array''
      | JStr s \<Rightarrow> ''String''
      | JNum n \<Rightarrow> ''Number''
      | JBool b \<Rightarrow> ''Boolean''
      | JNative n \<Rightarrow> (if n = ''__proto__'' then ''Object'' else ''Function'')
      | other \<Rightarrow> [])"

definition example_inherited :: "jsval \<Rightarrow> string \<Rightarrow> error + jsval" where
  "example_inherited v k =
     (if k = ''constructor'' then Inr (JNative (constructor_name v))
      else if k \<in> set object_prototype_members then Inr (JNative k)
      else (case v of
              JNative n \<Rightarrow>
                if n = ''__proto__'' then Inr JUndefined
                else if k = ''name'' then Inr (JStr n)
                else if k = ''caller'' \<or> k = ''arguments'' then Inl TypeError
                else Inr JUndefined
            | other \<Rightarrow> Inr JUndefined))"

definition example_runtime :: runtime where
  "example_runtime =
     \<lparr> inherited = example_inherited,
       native_text =
         (\<lambda>n. if n = ''__proto__'' then ''[object Object]''
               else ''function '' @ n @ ''() { [native code] }'') \<rparr>"

text \<open>
  A stand-in for the semver library on the plain versions \<^verbatim>\<open>MAJOR.MINOR.PATCH\<close>, three
  decimal numerals without leading zeros and within the safe integers. The library accepts
  these strings, and reads the patch number as the third numeral.
\<close>

definition read_numeral :: "string \<Rightarrow> nat option" where
  "read_numeral s =
     (if s = [] \<or> (hd s = CHR ''0'' \<and> tl s \<noteq> []) then None
      else (case read_digits 0 s of
              None \<Rightarrow> None
            | Some n \<Rightarrow> if n \<le> 9007199254740991 then Some n else None))"

definition plain_version :: "jsval \<Rightarrow> (nat \<times> nat \<times> nat) option" where
  "plain_version v =
     (case v of
        JStr s \<Rightarrow>
          (case map read_numeral (split_on CHR ''.'' s) of
             [Some major, Some minor, Some patch] \<Rightarrow> Some (major, minor, patch)
           | other \<Rightarrow> None)
      | other \<Rightarrow> None)"

definition plain_valid :: "jsval \<Rightarrow> bool" where
  "plain_valid v = (plain_version v \<noteq> None)"

definition plain_patch :: "jsval \<Rightarrow> int" where
  "plain_patch v = (case plain_version v of Some (major, minor, patch) \<Rightarrow> int patch | None \<Rightarrow> 0)"

text \<open>
  The template of the concrete runs prints the version of the context. The chunks of these
  runs are objects or plain words, on which \<^verbatim>\<open>JSON.parse\<close> fails.
\<close>

definition example_env :: env where
  "example_env =
     \<lparr> runtime = example_runtime,
       json_parse = (\<lambda>s. None),
       semver_valid = plain_valid,
       semver_patch = plain_patch,
       filter_reverted = (\<lambda>commits. commits),
       render =
         (\<lambda>context.
            Inr (to_string example_runtime (lookup_prop (own_props context) ''version''))) \<rparr>"

definition example_options :: options where
  "example_options =
     \<lparr> groupBy = ''type'',
       commitGroupsSort = None,
       commitsSort = None,
       noteGroupsSort = None,
       notesSort = None,
       generateOn = GPredicate (default_generateOn example_env),
       finalizeContext = (\<lambda>context filteredCommits keyCommit commits. Inr context),
       reverse = False,
       includeDetails = False,
       ignoreReverted = True,
       doFlush = True,
       transform = TFunction (\<lambda>commit context. Inr commit) \<rparr>"

definition release :: "string \<Rightarrow> jsval" where
  "release v = JObj [(''version'', JStr v), (''notes'', JArr [] [])]"

definition feat :: jsval where
  "feat = JObj [(''type'', JStr ''feat''), (''notes'', JArr [] [])]"

section \<open>Properties of the path accessor\<close>

lemma map_of_replace_prop:
  "map_of (replace_prop k v ps) k' =
     (if k' = k \<and> map_of ps k \<noteq> None then Some v else map_of ps k')"
  by (induction ps) auto

lemma map_of_insert_index:
  "map_of ps k = None \<Longrightarrow>
   map_of (insert_index n k v ps) k' = (if k' = k then Some v else map_of ps k')"
  by (induction ps) (auto split: option.splits if_splits)

lemma map_of_obj_put: "map_of (obj_put ps k v) k' = (if k' = k then Some v else map_of ps k')"
  by (simp add: obj_put_def map_of_replace_prop map_of_insert_index map_add_def
      split: option.splits)

lemma lookup_obj_put:
  "lookup_prop (obj_put ps k v) k' = (if k' = k then v else lookup_prop ps k')"
  by (simp add: lookup_prop_def map_of_obj_put)

lemma lookup_prop_absent: "k \<notin> fst ` set ps \<Longrightarrow> lookup_prop ps k = JUndefined"
  by (simp add: lookup_prop_def map_of_eq_None_iff[symmetric] del: map_of_eq_None_iff)

lemma array_index_length: "array_index ''length'' = None"
  by (simp add: array_index_def digit_val_def)

lemma map_of_absent: "k \<notin> fst ` set ps \<Longrightarrow> map_of ps k = None"
  by (simp add: map_of_eq_None_iff)

lemma js_read_error:
  "truthy c \<Longrightarrow> js_read rt c k = Inl e \<Longrightarrow> \<not> has_own c k \<and> inherited rt c k = Inl e"
  by (cases c)
    (auto simp: own_or_inherited_def array_index_length map_of_eq_None_iff
      split: option.splits if_splits)

lemma js_read_lacks: "truthy c \<Longrightarrow> lacks rt c k \<Longrightarrow> js_read rt c k = Inr JUndefined"
  by (cases c)
    (auto simp: lacks_def own_or_inherited_def array_index_length map_of_absent
      split: option.splits)

lemma get_parts_falsy: "\<not> truthy c \<Longrightarrow> get_parts rt c parts = Inr c"
  by (induction parts) auto

lemma get_parts_error:
  "get_parts rt c parts = Inl e \<Longrightarrow> \<exists>v k. truthy v \<and> \<not> has_own v k \<and> inherited rt v k = Inl e"
proof (induction parts arbitrary: c)
  case Nil
  then show ?case by simp
next
  case (Cons k ks)
  show ?case
  proof (cases "truthy c")
    case True
    note t = this
    show ?thesis
    proof (cases "js_read rt c k")
      case (Inl e')
      with t Cons.prems have "js_read rt c k = Inl e"
        by simp
      with t have "\<not> has_own c k \<and> inherited rt c k = Inl e"
        by (rule js_read_error)
      with t show ?thesis
        by blast
    next
      case (Inr v)
      with t Cons.prems have "get_parts rt v ks = Inl e"
        by simp
      then show ?thesis
        by (rule Cons.IH)
    qed
  next
    case False
    with Cons.prems show ?thesis
      by (simp add: get_parts_falsy)
  qed
qed

lemma get_parts_append:
  "get_parts rt c (pre @ rest) =
     (case get_parts rt c pre of Inl e \<Rightarrow> Inl e | Inr u \<Rightarrow> get_parts rt u rest)"
  by (induction pre arbitrary: c) (auto split: sum.splits)

lemma get_missing_on_truthy:
  "missing_on_truthy rt c parts \<Longrightarrow> get_parts rt c parts = Inr JUndefined"
proof (induction rt c parts rule: missing_on_truthy.induct)
  case (3 rt c k k' ks)
  show ?case
  proof (cases "lacks rt c k")
    case True
    with 3 have "js_read rt c k = Inr JUndefined"
      by (simp add: js_read_lacks)
    with 3 show ?thesis
      by (simp add: get_parts_falsy)
  next
    case False
    with 3 show ?thesis
      by (auto split: sum.splits)
  qed
qed simp_all

text \<open>
  Where \<^verbatim>\<open>set\<close> returns, \<^verbatim>\<open>get\<close> along the same non-empty segments finds the value.
\<close>

lemma get_set_parts:
  "set_parts rt c parts v = Inr c' \<Longrightarrow> parts \<noteq> [] \<Longrightarrow> \<forall>s \<in> set parts. s \<noteq> [] \<Longrightarrow>
   get_parts rt c' parts = Inr v"
proof (induction rt c parts v arbitrary: c' rule: set_parts.induct)
  case (2 rt ctx key parts v)
  then show ?case
    by (cases "parts = []") (auto simp: own_or_inherited_def map_of_obj_put split: sum.splits)
qed simp

lemmas eval_runtime =
  example_runtime_def example_inherited_def constructor_name_def object_prototype_members_def
  own_or_inherited_def lacks_def

text \<open>
  C4 (as stated). The claim: \<^verbatim>\<open>get\<close> returns \<^verbatim>\<open>undefined\<close> whenever an intermediate
  segment of the path is missing. On the record \<^verbatim>\<open>{a: null}\<close> and the path
  \<^verbatim>\<open>a.b.c\<close> the intermediate segment \<^verbatim>\<open>b\<close> is missing, and \<^verbatim>\<open>get\<close> returns
  \<^verbatim>\<open>null\<close>.
\<close>

theorem get_returns_null_counterexample:
  "intermediate_missing example_runtime (JObj [(''a'', JNull)]) (split_on CHR ''.'' ''a.b.c'') \<and>
   get example_runtime (JObj [(''a'', JNull)]) ''a.b.c'' = Inr JNull \<and>
   get example_runtime (JObj [(''a'', JNull)]) ''a.b.c'' \<noteq> Inr JUndefined"
  by (simp add: get_def eval_runtime)

text \<open>
  C4 (amended). For every record and every dotted path, \<^verbatim>\<open>get\<close> never reads a member
  of \<^verbatim>\<open>undefined\<close> or \<^verbatim>\<open>null\<close>: it returns a value, unless a getter on the prototype
  chain of a truthy value on the way raises an error, which is then the error of
  \<^verbatim>\<open>get\<close>. It returns \<^verbatim>\<open>undefined\<close> whenever an intermediate segment is missing, as
  an own property and on the prototype chain, from a value reached through truthy values
  only; and once the traversal reaches a falsy value (\<^verbatim>\<open>undefined\<close>, \<^verbatim>\<open>null\<close>,
  \<^verbatim>\<open>false\<close>, \<^verbatim>\<open>0\<close> or the empty string), that value itself is the result.
\<close>

theorem get_null_safe:
  "(\<forall>e. get rt record path = Inl e \<longrightarrow>
         (\<exists>v k. truthy v \<and> \<not> has_own v k \<and> inherited rt v k = Inl e)) \<and>
   (missing_on_truthy rt record (split_on CHR ''.'' path) \<longrightarrow> get rt record path = Inr JUndefined) \<and>
   (\<forall>pre rest u. split_on CHR ''.'' path = pre @ rest \<and> get_parts rt record pre = Inr u \<and> \<not> truthy u
      \<longrightarrow> get rt record path = Inr u)"
proof (intro conjI allI impI)
  fix e
  assume "get rt record path = Inl e"
  then show "\<exists>v k. truthy v \<and> \<not> has_own v k \<and> inherited rt v k = Inl e"
    unfolding get_def by (rule get_parts_error)
next
  assume "missing_on_truthy rt record (split_on CHR ''.'' path)"
  then show "get rt record path = Inr JUndefined"
    unfolding get_def by (rule get_missing_on_truthy)
next
  fix pre rest u
  assume "split_on CHR ''.'' path = pre @ rest \<and> get_parts rt record pre = Inr u \<and> \<not> truthy u"
  then show "get rt record path = Inr u"
    by (simp add: get_def get_parts_append get_parts_falsy)
qed

text \<open>
  C4 (witness). A missing segment below an empty object, a zero on the way, and the two
  reads through the prototype chain: \<^verbatim>\<open>get({a: {}}, 'a.constructor.name')\<close> finds the
  name of the built-in constructor, where no segment is missing, and
  \<^verbatim>\<open>get({}, 'constructor.caller')\<close> ends with the error of the getter.
\<close>

theorem get_null_safe_witness:
  "missing_on_truthy example_runtime (JObj [(''a'', JObj [])]) (split_on CHR ''.'' ''a.b.c'') \<and>
   get example_runtime (JObj [(''a'', JObj [])]) ''a.b.c'' = Inr JUndefined \<and>
   split_on CHR ''.'' ''a.b.c'' = [''a''] @ [''b'', ''c''] \<and>
   get_parts example_runtime (JObj [(''a'', JNum 0)]) [''a''] = Inr (JNum 0) \<and>
   \<not> truthy (JNum 0) \<and>
   get example_runtime (JObj [(''a'', JNum 0)]) ''a.b.c'' = Inr (JNum 0) \<and>
   \<not> missing_on_truthy example_runtime (JObj [(''a'', JObj [])])
       (split_on CHR ''.'' ''a.constructor.name'') \<and>
   get example_runtime (JObj [(''a'', JObj [])]) ''a.constructor.name'' = Inr (JStr ''Object'') \<and>
   get example_runtime (JObj []) ''constructor.caller'' = Inl TypeError \<and>
   (\<exists>v k. truthy v \<and> \<not> has_own v k \<and> inherited example_runtime v k = Inl TypeError)"
proof -
  have m: "missing_on_truthy example_runtime (JObj [(''a'', JObj [])]) (split_on CHR ''.'' ''a.b.c'')"
    by (simp add: eval_runtime)
  have p: "split_on CHR ''.'' ''a.b.c'' = [''a''] @ [''b'', ''c''] \<and>
      get_parts example_runtime (JObj [(''a'', JNum 0)]) [''a''] = Inr (JNum 0) \<and> \<not> truthy (JNum 0)"
    by (simp add: eval_runtime)
  have n: "\<not> missing_on_truthy example_runtime (JObj [(''a'', JObj [])])
       (split_on CHR ''.'' ''a.constructor.name'')"
    by (simp add: eval_runtime)
  have c: "get example_runtime (JObj [(''a'', JObj [])]) ''a.constructor.name'' = Inr (JStr ''Object'')"
    by (simp add: get_def eval_runtime)
  have t: "get example_runtime (JObj []) ''constructor.caller'' = Inl TypeError"
    by (simp add: get_def eval_runtime)
  note a1 = get_null_safe[of example_runtime "JObj [(''a'', JObj [])]" "''a.b.c''"]
  note a2 = get_null_safe[of example_runtime "JObj [(''a'', JNum 0)]" "''a.b.c''"]
  note a3 = get_null_safe[of example_runtime "JObj []" "''constructor.caller''"]
  have u: "get example_runtime (JObj [(''a'', JObj [])]) ''a.b.c'' = Inr JUndefined"
    using a1[THEN conjunct2, THEN conjunct1] m by (rule mp)
  have z: "get example_runtime (JObj [(''a'', JNum 0)]) ''a.b.c'' = Inr (JNum 0)"
    using a2[THEN conjunct2, THEN conjunct2, THEN spec, THEN spec, THEN spec] p
    by (rule mp)
  have g: "\<exists>v k. truthy v \<and> \<not> has_own v k \<and> inherited example_runtime v k = Inl TypeError"
    using a3[THEN conjunct1, THEN spec] t by (rule mp)
  from m u p z n c t g show ?thesis
    by (intro conjI) simp_all
qed

text \<open>
  C5 (failing input). \<^verbatim>\<open>set({}, 'a.b.c', 1)\<close>: two levels of the path are missing. The
  recursion reaches \<^verbatim>\<open>undefined\<close> with two segments left and reads \<^verbatim>\<open>context[key]\<close>
  on it, which raises a \<^verbatim>\<open>TypeError\<close>, so that no record is returned for \<^verbatim>\<open>get\<close> to
  read the value back from. One missing level is filled in.
\<close>

theorem set_two_missing_levels_throws:
  "set_path example_runtime (JObj []) ''a.b.c'' (JNum 1) = Inl TypeError \<and>
   set_path example_runtime (JObj []) ''a.b'' (JNum 1) = Inr (JObj [(''a'', JObj [(''b'', JNum 1)])])"
  by (simp add: set_path_def spread_into_def obj_put_def array_index_def digit_val_def
      eval_runtime)

section \<open>Properties of the grouping\<close>

lemma keys_replace_prop: "map fst (replace_prop k v ps) = map fst ps"
  by (induction ps) auto

lemma set_insert_index: "set (insert_index n k v ps) = insert (k, v) (set ps)"
  by (induction ps) (auto split: option.splits if_splits)

lemma keys_insert_index_set: "fst ` set (insert_index n k v ps) = insert k (fst ` set ps)"
  by (simp add: set_insert_index)

lemma keys_insert_index_non:
  "is_index k \<Longrightarrow> filter (\<lambda>x. \<not> is_index x) (map fst (insert_index n k v ps)) = filter (\<lambda>x. \<not> is_index x) (map fst ps)"
  by (induction ps) (auto split: option.splits)

lemma keys_insert_index_distinct:
  "k \<notin> fst ` set ps \<Longrightarrow> distinct (map fst ps) \<Longrightarrow> distinct (map fst (insert_index n k v ps))"
  by (induction ps) (auto simp: set_insert_index split: option.splits)

lemma index_first_non: "\<not> is_index k \<Longrightarrow> index_keys_first (k # ks) \<Longrightarrow> filter is_index ks = [] \<and> index_keys_first ks"
  by (auto simp: list_all_iff filter_empty_conv)

lemma keys_insert_index_ordered:
  "array_index k = Some n \<Longrightarrow> index_keys_first (map fst ps) \<Longrightarrow> index_keys_first (map fst (insert_index n k v ps))"
proof (induction ps)
  case Nil
  then show ?case by (simp add: is_index_def)
next
  case (Cons p ps)
  obtain k' v' where p: "p = (k', v')" by (cases p)
  show ?case
  proof (cases "array_index k'")
    case None
    with Cons p show ?thesis
      by (auto simp: is_index_def index_value_def list_all_iff)
  next
    case (Some m)
    with Cons p show ?thesis
      by (auto simp: is_index_def index_value_def list_all_iff set_insert_index split: option.splits)
  qed
qed

lemma keys_append_ordered:
  "\<not> is_index k \<Longrightarrow> index_keys_first ks \<Longrightarrow> index_keys_first (ks @ [k])"
  by (induction ks) (auto simp: list_all_iff)

lemma map_of_None_keys: "(map_of ps k = None) = (k \<notin> set (map fst ps))"
  by (simp add: map_of_eq_None_iff)

lemma keys_obj_put:
  "map fst (obj_put ps k v) =
     (if k \<in> fst ` set ps then map fst ps
      else if is_index k then map fst (insert_index (index_value k) k v ps)
      else map fst ps @ [k])"
proof (cases "map_of ps k")
  case None
  then have "k \<notin> fst ` set ps" by (simp add: map_of_eq_None_iff)
  with None show ?thesis
    by (simp add: obj_put_def is_index_def index_value_def split: option.splits)
next
  case (Some old)
  then have "k \<in> fst ` set ps" by (metis map_of_eq_None_iff option.distinct(1))
  with Some show ?thesis
    by (simp add: obj_put_def keys_replace_prop)
qed

lemma obj_put_ordered: "index_keys_first (map fst ps) \<Longrightarrow> index_keys_first (map fst (obj_put ps k v))"
  by (auto simp: keys_obj_put keys_append_ordered is_index_def index_value_def intro!: keys_insert_index_ordered)

lemma obj_put_distinct: "distinct (map fst ps) \<Longrightarrow> distinct (map fst (obj_put ps k v))"
  by (simp add: keys_obj_put keys_insert_index_distinct)

lemma obj_put_keys_set: "fst ` set (obj_put ps k v) = insert k (fst ` set ps)"
  using arg_cong[OF keys_obj_put[of ps k v], of set]
  by (auto simp: set_insert_index split: if_splits)

lemma obj_put_non:
  "filter (\<lambda>x. \<not> is_index x) (map fst (obj_put ps k v)) =
     filter (\<lambda>x. \<not> is_index x) (map fst ps) @ (if k \<in> fst ` set ps \<or> is_index k then [] else [k])"
  by (simp add: keys_obj_put keys_insert_index_non)

lemma index_keys_first_split:
  "index_keys_first ks \<Longrightarrow>
     ks = filter is_index ks @ filter (\<lambda>k. \<not> is_index k) ks \<and> sorted (map index_value (filter is_index ks))"
proof (induction ks)
  case Nil
  then show ?case by simp
next
  case (Cons k ks)
  show ?case
  proof (cases "is_index k")
    case True
    with Cons show ?thesis by (auto simp: list_all_iff)
  next
    case False
    with Cons have "filter is_index ks = []" by (auto simp: list_all_iff filter_empty_conv)
    with Cons False show ?thesis by (auto simp: list_all_iff)
  qed
qed

lemma group_reduce_keys:
  "group_reduce rt g acc commits = Inr obj \<Longrightarrow> \<exists>keys. map (group_key rt g) commits = map Inr keys"
proof (induction commits arbitrary: acc)
  case Nil
  then show ?case by simp
next
  case (Cons c cs)
  from Cons.prems obtain k acc' where k: "group_key rt g c = Inr k" and r: "group_reduce rt g acc' cs = Inr obj"
    by (auto split: sum.splits option.splits if_splits)
  from Cons.IH[OF r] obtain keys where "map (group_key rt g) cs = map Inr keys" by blast
  with k have "map (group_key rt g) (c # cs) = map Inr (k # keys)" by simp
  then show ?case by blast
qed

lemma group_reduce_step:
  assumes "group_reduce rt g acc (c # cs) = Inr obj"
  obtains k where "group_key rt g c = Inr k"
    and "group_reduce rt g (obj_put acc k (case map_of acc k of None \<Rightarrow> [c] | Some old \<Rightarrow> old @ [c])) cs = Inr obj"
  using assms by (auto split: sum.splits option.splits if_splits)

lemma group_reduce_map_of:
  "group_reduce rt g acc commits = Inr obj \<Longrightarrow>
   map_of obj k =
     (case map_of acc k of
        None \<Rightarrow> (if filter (\<lambda>c. group_key rt g c = Inr k) commits = [] then None
                 else Some (filter (\<lambda>c. group_key rt g c = Inr k) commits))
      | Some old \<Rightarrow> Some (old @ filter (\<lambda>c. group_key rt g c = Inr k) commits))"
proof (induction commits arbitrary: acc)
  case Nil
  then show ?case by (simp split: option.splits)
next
  case (Cons c cs)
  from Cons.prems obtain k' where k': "group_key rt g c = Inr k'"
    and r: "group_reduce rt g (obj_put acc k' (case map_of acc k' of None \<Rightarrow> [c] | Some old \<Rightarrow> old @ [c])) cs = Inr obj"
    by (rule group_reduce_step)
  show ?case
  proof (cases "k' = k")
    case True
    with Cons.IH[OF r] k' show ?thesis
      by (simp add: map_of_obj_put split: option.splits)
  next
    case False
    with Cons.IH[OF r] k' show ?thesis
      by (simp add: map_of_obj_put split: option.splits)
  qed
qed

lemma group_reduce_ordered:
  "group_reduce rt g acc commits = Inr obj \<Longrightarrow> index_keys_first (map fst acc) \<Longrightarrow>
   index_keys_first (map fst obj)"
proof (induction commits arbitrary: acc)
  case Nil
  then show ?case by simp
next
  case (Cons c cs)
  from Cons.prems(1) obtain k' where
    r: "group_reduce rt g (obj_put acc k' (case map_of acc k' of None \<Rightarrow> [c] | Some old \<Rightarrow> old @ [c])) cs = Inr obj"
    by (rule group_reduce_step)
  from Cons.IH[OF r] Cons.prems(2) show ?case
    by (simp add: obj_put_ordered)
qed

lemma group_reduce_distinct:
  "group_reduce rt g acc commits = Inr obj \<Longrightarrow> distinct (map fst acc) \<Longrightarrow> distinct (map fst obj)"
proof (induction commits arbitrary: acc)
  case Nil
  then show ?case by simp
next
  case (Cons c cs)
  from Cons.prems(1) obtain k' where
    r: "group_reduce rt g (obj_put acc k' (case map_of acc k' of None \<Rightarrow> [c] | Some old \<Rightarrow> old @ [c])) cs = Inr obj"
    by (rule group_reduce_step)
  from Cons.IH[OF r] Cons.prems(2) show ?case
    by (simp add: obj_put_distinct)
qed

lemma first_seen_filter: "first_seen (filter P xs) = filter P (first_seen xs)"
proof (induction xs)
  case Nil
  show ?case by simp
next
  case (Cons a xs)
  show ?case
  proof (cases "P a")
    case True
    with Cons show ?thesis by (simp add: conj_commute)
  next
    case False
    then have "filter P (first_seen xs) = filter P (filter (\<lambda>y. y \<noteq> a) (first_seen xs))"
      by (auto intro: filter_cong)
    with False Cons show ?thesis by simp
  qed
qed

lemma set_first_seen: "set (first_seen xs) = set xs"
  by (induction xs) auto

lemma distinct_first_seen: "distinct (first_seen xs)"
  by (induction xs) auto

lemma reduce_cons_keys:
  assumes "group_reduce rt g acc (c # cs) = Inr obj" and "map (group_key rt g) (c # cs) = map Inr keys"
  obtains k ks v where "keys = k # ks" and "group_key rt g c = Inr k"
    and "map (group_key rt g) cs = map Inr ks" and "group_reduce rt g (obj_put acc k v) cs = Inr obj"
proof -
  from assms(2) obtain k ks where keys: "keys = k # ks" and k: "group_key rt g c = Inr k"
    and ks: "map (group_key rt g) cs = map Inr ks"
    by (cases keys) auto
  from assms(1) obtain k' where "group_key rt g c = Inr k'"
    and "group_reduce rt g (obj_put acc k' (case map_of acc k' of None \<Rightarrow> [c] | Some old \<Rightarrow> old @ [c])) cs = Inr obj"
    by (rule group_reduce_step)
  with k have "group_reduce rt g (obj_put acc k (case map_of acc k of None \<Rightarrow> [c] | Some old \<Rightarrow> old @ [c])) cs = Inr obj"
    by simp
  with keys k ks show thesis by (rule that)
qed


lemma filter_insert_non:
  "\<forall>x \<in> set xs. \<not> is_index x \<Longrightarrow> is_index k \<Longrightarrow>
   filter (\<lambda>x. x \<noteq> k \<and> x \<notin> A) xs = filter (\<lambda>x. x \<notin> A) xs"
  by (rule filter_cong[OF refl]) auto

lemma filter_present:
  "k \<in> A \<Longrightarrow> filter (\<lambda>x. x \<noteq> k \<and> x \<notin> A) xs = filter (\<lambda>x. x \<notin> A) xs"
  by (rule filter_cong[OF refl]) auto

lemma group_reduce_non:
  "group_reduce rt g acc commits = Inr obj \<Longrightarrow> map (group_key rt g) commits = map Inr keys \<Longrightarrow>
   filter (\<lambda>k. \<not> is_index k) (map fst obj) =
     filter (\<lambda>k. \<not> is_index k) (map fst acc) @
     filter (\<lambda>k. k \<notin> fst ` set acc) (first_seen (filter (\<lambda>k. \<not> is_index k) keys))"
proof (induction commits arbitrary: acc keys)
  case Nil
  then show ?case by simp
next
  case (Cons c cs)
  from Cons.prems obtain k ks v where keys: "keys = k # ks"
    and ks: "map (group_key rt g) cs = map Inr ks"
    and r: "group_reduce rt g (obj_put acc k v) cs = Inr obj"
    by (rule reduce_cons_keys)
  let ?non = "\<lambda>k. \<not> is_index k"
  let ?fs = "first_seen (filter ?non ks)"
  have ih: "filter ?non (map fst obj) =
     filter ?non (map fst (obj_put acc k v)) @ filter (\<lambda>x. x \<noteq> k \<and> x \<notin> fst ` set acc) ?fs"
    using Cons.IH[OF r ks] by (simp add: obj_put_keys_set)
  have "set ?fs = {x \<in> set ks. \<not> is_index x}"
    unfolding set_first_seen by (rule set_filter)
  then have fs: "\<forall>x \<in> set ?fs. \<not> is_index x"
    by blast
  show ?case
  proof (cases "is_index k")
    case True
    have e: "filter (\<lambda>x. x \<noteq> k \<and> x \<notin> fst ` set acc) ?fs = filter (\<lambda>x. x \<notin> fst ` set acc) ?fs"
      using fs True by (rule filter_insert_non)
    have a: "filter ?non (k # ks) = filter ?non ks"
      using True by simp
    have b: "filter ?non (map fst (obj_put acc k v)) = filter ?non (map fst acc)"
      using True by (simp add: obj_put_non)
    show ?thesis
      unfolding keys a ih b e ..
  next
    case False
    note non = this
    have a: "first_seen (filter ?non (k # ks)) = k # filter (\<lambda>y. y \<noteq> k) ?fs"
      using non by simp
    show ?thesis
    proof (cases "k \<in> fst ` set acc")
      case True
      have e: "filter (\<lambda>x. x \<noteq> k \<and> x \<notin> fst ` set acc) ?fs = filter (\<lambda>x. x \<notin> fst ` set acc) ?fs"
        using True by (rule filter_present)
      have b: "filter ?non (map fst (obj_put acc k v)) = filter ?non (map fst acc)"
        using True by (simp add: obj_put_non)
      have c: "filter (\<lambda>x. x \<notin> fst ` set acc) (k # filter (\<lambda>y. y \<noteq> k) ?fs) =
               filter (\<lambda>x. x \<noteq> k \<and> x \<notin> fst ` set acc) ?fs"
        using True by simp
      show ?thesis
        unfolding keys a ih b c ..
    next
      case False
      have b: "filter ?non (map fst (obj_put acc k v)) = filter ?non (map fst acc) @ [k]"
        using False non by (simp add: obj_put_non)
      have c: "filter (\<lambda>x. x \<notin> fst ` set acc) (k # filter (\<lambda>y. y \<noteq> k) ?fs) =
               k # filter (\<lambda>x. x \<noteq> k \<and> x \<notin> fst ` set acc) ?fs"
        using False by simp
      show ?thesis
        unfolding keys a ih b c by simp
    qed
  qed
qed

lemma group_reduce_keyset:
  "group_reduce rt g acc commits = Inr obj \<Longrightarrow> map (group_key rt g) commits = map Inr keys \<Longrightarrow>
   fst ` set obj = fst ` set acc \<union> set keys"
proof (induction commits arbitrary: acc keys)
  case Nil
  then show ?case by simp
next
  case (Cons c cs)
  from Cons.prems obtain k ks v where keys: "keys = k # ks"
    and ks: "map (group_key rt g) cs = map Inr ks"
    and r: "group_reduce rt g (obj_put acc k v) cs = Inr obj"
    by (rule reduce_cons_keys)
  from Cons.IH[OF r ks] show ?case
    by (simp add: keys obj_put_keys_set)
qed

lemma group_reduce_entry:
  assumes "group_reduce rt g [] commits = Inr obj" and "p \<in> set obj"
  shows "snd p = filter (\<lambda>c. group_key rt g c = Inr (fst p)) commits"
proof -
  have "distinct (map fst obj)"
    using assms(1) by (rule group_reduce_distinct) simp
  with assms(2) have "map_of obj (fst p) = Some (snd p)"
    by simp
  with group_reduce_map_of[OF assms(1), of "fst p"] show ?thesis
    by (simp split: if_splits)
qed

lemma group_reduce_entries:
  assumes "group_reduce rt g [] commits = Inr obj"
  shows "obj = map (\<lambda>k. (k, filter (\<lambda>c. group_key rt g c = Inr k) commits)) (map fst obj)"
proof -
  have "map (\<lambda>p. p) obj = map (\<lambda>p. (fst p, filter (\<lambda>c. group_key rt g c = Inr (fst p)) commits)) obj"
  proof (rule map_cong[OF refl])
    fix p assume "p \<in> set obj"
    with assms have "snd p = filter (\<lambda>c. group_key rt g c = Inr (fst p)) commits"
      by (rule group_reduce_entry)
    then show "p = (fst p, filter (\<lambda>c. group_key rt g c = Inr (fst p)) commits)"
      by (simp add: prod_eq_iff)
  qed
  then show ?thesis by (simp add: comp_def)
qed

lemma getCommitGroups_unsorted:
  assumes "getCommitGroups rt g commits None None = Inr groups"
    and "map (group_key rt g) commits = map Inr keys"
  shows "\<exists>ks. groups = map (\<lambda>k. \<lparr> cg_title = title_of_key k,
                                    cg_commits = filter (\<lambda>c. group_key rt g c = Inr k) commits \<rparr>) ks \<and>
              distinct ks \<and> set ks = set keys \<and>
              filter (\<lambda>k. \<not> is_index k) ks = first_seen (filter (\<lambda>k. \<not> is_index k) keys) \<and>
              ks = filter is_index ks @ filter (\<lambda>k. \<not> is_index k) ks \<and>
              sorted (map index_value (filter is_index ks))"
proof -
  from assms(1) obtain obj where r: "group_reduce rt g [] commits = Inr obj"
    and groups: "groups = map (group_entry None) obj"
    by (auto simp: getCommitGroups_def sort_opt_def split: sum.splits)
  let ?ks = "map fst obj"
  have e: "obj = map (\<lambda>k. (k, filter (\<lambda>c. group_key rt g c = Inr k) commits)) ?ks"
    using r by (rule group_reduce_entries)
  have "groups = map (group_entry None) (map (\<lambda>k. (k, filter (\<lambda>c. group_key rt g c = Inr k) commits)) ?ks)"
    unfolding groups using e by simp
  then have 1: "groups = map (\<lambda>k. \<lparr> cg_title = title_of_key k,
                                    cg_commits = filter (\<lambda>c. group_key rt g c = Inr k) commits \<rparr>) ?ks"
    by (simp add: group_entry_def sort_opt_def comp_def)
  have 2: "distinct ?ks"
    using r by (rule group_reduce_distinct) simp
  have 3: "set ?ks = set keys"
    using group_reduce_keyset[OF r assms(2)] by simp
  have 4: "filter (\<lambda>k. \<not> is_index k) ?ks = first_seen (filter (\<lambda>k. \<not> is_index k) keys)"
    using group_reduce_non[OF r assms(2)] by simp
  have "index_keys_first ?ks"
    using r by (rule group_reduce_ordered) simp
  then have 5: "?ks = filter is_index ?ks @ filter (\<lambda>k. \<not> is_index k) ?ks \<and>
              sorted (map index_value (filter is_index ?ks))"
    by (rule index_keys_first_split)
  from 1 2 3 4 5 show ?thesis by blast
qed

lemma set_insert_sorted: "set (insert_sorted cmp x xs) = insert x (set xs)"
  by (induction xs) auto

lemma set_js_sort_aux: "set (foldl (\<lambda>acc x. insert_sorted cmp x acc) ys xs) = set ys \<union> set xs"
  by (induction xs arbitrary: ys) (auto simp: set_insert_sorted)

lemma set_sort_opt: "set (sort_opt c xs) = set xs"
  by (cases c) (simp_all add: sort_opt_def js_sort_def set_js_sort_aux)

lemma title_of_key_inj: "title_of_key a = title_of_key b \<Longrightarrow> a = b"
  by (auto simp: title_of_key_def split: if_splits)

lemma getCommitGroups_member:
  assumes "getCommitGroups rt g commits gsort csort = Inr groups"
    and "c \<in> set commits"
  shows "\<exists>k. group_key rt g c = Inr k \<and>
             (\<exists>gr \<in> set groups. cg_title gr = title_of_key k \<and> c \<in> set (cg_commits gr)) \<and>
             (\<forall>gr \<in> set groups. c \<in> set (cg_commits gr) \<longrightarrow> cg_title gr = title_of_key k)"
proof -
  from assms(1) obtain obj where r: "group_reduce rt g [] commits = Inr obj"
    and groups: "groups = sort_opt gsort (map (group_entry csort) obj)"
    by (auto simp: getCommitGroups_def split: sum.splits)
  from group_reduce_keys[OF r] obtain keys where keys: "map (group_key rt g) commits = map Inr keys"
    by blast
  from assms(2) obtain i where i: "i < length commits" "commits ! i = c"
    by (auto simp: in_set_conv_nth)
  with keys have k: "group_key rt g c = Inr (keys ! i)"
    by (metis length_map nth_map)
  let ?k = "keys ! i"
  have sg: "set groups = group_entry csort ` set obj"
    by (simp add: groups set_sort_opt)
  have "map_of obj ?k = Some (filter (\<lambda>c. group_key rt g c = Inr ?k) commits)"
    using group_reduce_map_of[OF r, of ?k] assms(2) k by (auto simp: filter_empty_conv)
  then have m: "(?k, filter (\<lambda>c. group_key rt g c = Inr ?k) commits) \<in> set obj"
    by (rule map_of_SomeD)
  have a: "\<exists>gr \<in> set groups. cg_title gr = title_of_key ?k \<and> c \<in> set (cg_commits gr)"
    unfolding sg using m assms(2) k
    by (auto simp: group_entry_def set_sort_opt intro!: bexI[of _ "(?k, filter (\<lambda>c. group_key rt g c = Inr ?k) commits)"])
  have b: "\<forall>gr \<in> set groups. c \<in> set (cg_commits gr) \<longrightarrow> cg_title gr = title_of_key ?k"
  proof (intro ballI impI)
    fix gr assume "gr \<in> set groups" and c: "c \<in> set (cg_commits gr)"
    then obtain p where p: "p \<in> set obj" and gr: "gr = group_entry csort p"
      unfolding sg by blast
    from r p have "snd p = filter (\<lambda>c. group_key rt g c = Inr (fst p)) commits"
      by (rule group_reduce_entry)
    with c gr have "group_key rt g c = Inr (fst p)"
      by (simp add: group_entry_def set_sort_opt)
    with k have "fst p = ?k" by simp
    then show "cg_title gr = title_of_key ?k"
      by (simp add: gr group_entry_def)
  qed
  from k a b show ?thesis by blast
qed

lemma strict_eq_primitive: "primitive a \<Longrightarrow> strict_eq a b = (a = b)"
  by (cases a) (simp_all add: strict_eq_def)

lemma note_reduce_cons:
  assumes "note_reduce rt acc (n # ns) = Inr res" and "map (\<lambda>n. js_read rt n ''title'') (n # ns) = map Inr titles"
  obtains t ts where "titles = t # ts" and "js_read rt n ''title'' = Inr t"
    and "map (\<lambda>n. js_read rt n ''title'') ns = map Inr ts"
    and "note_reduce rt (if list_ex (\<lambda>g. strict_eq (ng_title g) t) acc then map (push_note t n) acc
                      else map (push_note t n) acc @ [\<lparr> ng_title = t, ng_notes = [n] \<rparr>]) ns = Inr res"
proof -
  from assms(2) obtain t ts where 1: "titles = t # ts" and 2: "js_read rt n ''title'' = Inr t"
    and 3: "map (\<lambda>n. js_read rt n ''title'') ns = map Inr ts"
    by (cases titles) auto
  from assms(1) 2 have "note_reduce rt (if list_ex (\<lambda>g. strict_eq (ng_title g) t) acc then map (push_note t n) acc
                      else map (push_note t n) acc @ [\<lparr> ng_title = t, ng_notes = [n] \<rparr>]) ns = Inr res"
    by (simp add: Let_def split: if_splits)
  with 1 2 3 show thesis by (rule that)
qed

lemma note_reduce_spec:
  "note_reduce rt acc nts = Inr res \<Longrightarrow> map (\<lambda>n. js_read rt n ''title'') nts = map Inr titles \<Longrightarrow>
   \<forall>g \<in> set acc. primitive (ng_title g) \<Longrightarrow> \<forall>t \<in> set titles. primitive t \<Longrightarrow>
   res = map (\<lambda>g. g\<lparr> ng_notes := ng_notes g @ notes_titled rt (ng_title g) nts \<rparr>) acc @
         map (\<lambda>t. \<lparr> ng_title = t, ng_notes = notes_titled rt t nts \<rparr>)
           (filter (\<lambda>t. t \<notin> ng_title ` set acc) (first_seen titles))"
proof (induction nts arbitrary: acc titles)
  case Nil
  then show ?case by (simp add: notes_titled_def)
next
  case (Cons n ns)
  from Cons.prems(1,2) obtain t ts where titles: "titles = t # ts" and t: "js_read rt n ''title'' = Inr t"
    and ts: "map (\<lambda>n. js_read rt n ''title'') ns = map Inr ts"
    and r: "note_reduce rt (if list_ex (\<lambda>g. strict_eq (ng_title g) t) acc then map (push_note t n) acc
                      else map (push_note t n) acc @ [\<lparr> ng_title = t, ng_notes = [n] \<rparr>]) ns = Inr res"
    by (rule note_reduce_cons)
  let ?fs = "first_seen ts"
  let ?F = "\<lambda>ns g. g\<lparr> ng_notes := ng_notes g @ notes_titled rt (ng_title g) ns \<rparr>"
  let ?G = "\<lambda>ns t. \<lparr> ng_title = t, ng_notes = notes_titled rt t ns \<rparr>"
  have prim: "\<forall>g \<in> set acc. primitive (ng_title g)" by (rule Cons.prems(3))
  have tprim: "primitive t" and tsprim: "\<forall>t \<in> set ts. primitive t"
    using Cons.prems(4) by (simp_all add: titles)
  have ex: "list_ex (\<lambda>g. strict_eq (ng_title g) t) acc = (t \<in> ng_title ` set acc)"
    using prim by (auto simp: list_ex_iff strict_eq_primitive)
  have title_push: "\<And>g. ng_title (push_note t n g) = ng_title g"
    by (simp add: push_note_def)
  have pushF: "map (?F ns) (map (push_note t n) acc) = map (?F (n # ns)) acc"
  proof (simp only: map_map, rule map_cong[OF refl])
    fix g assume "g \<in> set acc"
    with prim have "strict_eq (ng_title g) t = (ng_title g = t)"
      by (simp add: strict_eq_primitive)
    then show "(?F ns \<circ> push_note t n) g = ?F (n # ns) g"
      using t by (auto simp: push_note_def notes_titled_def)
  qed
  have Gother: "\<And>xs. t \<notin> set xs \<Longrightarrow> map (?G ns) xs = map (?G (n # ns)) xs"
  proof (rule map_cong[OF refl])
    fix xs u assume "t \<notin> set xs" "u \<in> set xs"
    then have "u \<noteq> t" by blast
    then show "?G ns u = ?G (n # ns) u"
      using t by (simp add: notes_titled_def)
  qed
  show ?case
  proof (cases "t \<in> ng_title ` set acc")
    case True
    with r ex have r': "note_reduce rt (map (push_note t n) acc) ns = Inr res" by simp
    have p: "\<forall>g \<in> set (map (push_note t n) acc). primitive (ng_title g)"
      using prim by (simp add: title_push)
    have img: "ng_title ` set (map (push_note t n) acc) = ng_title ` set acc"
      by (simp add: image_image title_push)
    have ih: "res = map (?F ns) (map (push_note t n) acc) @
                    map (?G ns) (filter (\<lambda>u. u \<notin> ng_title ` set acc) ?fs)"
      using Cons.IH[OF r' ts p tsprim] unfolding img .
    have f: "filter (\<lambda>u. u \<notin> ng_title ` set acc) (first_seen (t # ts)) =
             filter (\<lambda>u. u \<notin> ng_title ` set acc) ?fs"
      using True by (auto intro: filter_cong)
    have "t \<notin> set (filter (\<lambda>u. u \<notin> ng_title ` set acc) ?fs)"
      using True by simp
    then have g: "map (?G ns) (filter (\<lambda>u. u \<notin> ng_title ` set acc) ?fs) =
                  map (?G (n # ns)) (filter (\<lambda>u. u \<notin> ng_title ` set acc) ?fs)"
      by (rule Gother)
    show ?thesis
      unfolding titles f ih pushF g ..
  next
    case False
    with r ex have r': "note_reduce rt (map (push_note t n) acc @ [\<lparr> ng_title = t, ng_notes = [n] \<rparr>]) ns = Inr res"
      by simp
    let ?new = "\<lparr> ng_title = t, ng_notes = [n] \<rparr>"
    have p: "\<forall>g \<in> set (map (push_note t n) acc @ [?new]). primitive (ng_title g)"
      using prim tprim by (simp add: title_push)
    have img: "ng_title ` set (map (push_note t n) acc @ [?new]) = insert t (ng_title ` set acc)"
      by (simp add: image_image title_push)
    have flt: "filter (\<lambda>u. u \<notin> insert t (ng_title ` set acc)) ?fs =
               filter (\<lambda>u. u \<notin> ng_title ` set acc) (filter (\<lambda>y. y \<noteq> t) ?fs)"
      unfolding filter_filter by (rule filter_cong[OF refl]) auto
    have ih: "res = map (?F ns) (map (push_note t n) acc @ [?new]) @
                    map (?G ns) (filter (\<lambda>u. u \<notin> ng_title ` set acc) (filter (\<lambda>y. y \<noteq> t) ?fs))"
      using Cons.IH[OF r' ts p tsprim] unfolding img flt .
    have f: "filter (\<lambda>u. u \<notin> ng_title ` set acc) (first_seen (t # ts)) =
             t # filter (\<lambda>u. u \<notin> ng_title ` set acc) (filter (\<lambda>y. y \<noteq> t) ?fs)"
      using False by simp
    have "t \<notin> set (filter (\<lambda>u. u \<notin> ng_title ` set acc) (filter (\<lambda>y. y \<noteq> t) ?fs))"
      by simp
    then have g: "map (?G ns) (filter (\<lambda>u. u \<notin> ng_title ` set acc) (filter (\<lambda>y. y \<noteq> t) ?fs)) =
                  map (?G (n # ns)) (filter (\<lambda>u. u \<notin> ng_title ` set acc) (filter (\<lambda>y. y \<noteq> t) ?fs))"
      by (rule Gother)
    have new: "?F ns ?new = ?G (n # ns) t"
      using t by (simp add: notes_titled_def)
    have "res = map (?F (n # ns)) acc @ ?G (n # ns) t #
                map (?G (n # ns)) (filter (\<lambda>u. u \<notin> ng_title ` set acc) (filter (\<lambda>y. y \<noteq> t) ?fs))"
      unfolding ih g map_append pushF using new by simp
    then show ?thesis
      unfolding titles f by simp
  qed
qed

lemma getNoteGroups_unsorted:
  assumes "getNoteGroups rt nts None None = Inr groups"
    and "map (\<lambda>n. js_read rt n ''title'') nts = map Inr titles"
    and "\<forall>t \<in> set titles. primitive t"
  shows "groups = map (\<lambda>t. \<lparr> ng_title = t, ng_notes = filter (\<lambda>n. js_read rt n ''title'' = Inr t) nts \<rparr>)
                    (first_seen titles)"
proof -
  from assms(1) have r: "note_reduce rt [] nts = Inr groups"
    by (auto simp: getNoteGroups_def sort_opt_def split: sum.splits)
  from note_reduce_spec[OF r assms(2) _ assms(3)] show ?thesis
    by (simp add: notes_titled_def)
qed

section \<open>Concrete evaluation\<close>

lemmas eval_grouping =
  getCommitGroups_def getNoteGroups_def group_key_def spec_group_key_def group_entry_def
  title_of_key_def obj_put_def array_index_def digit_val_def groups_value_def
  sort_opt_def lookup_prop_def show_int_def digit_char_def Let_def push_note_def strict_eq_def
  is_index_def eval_runtime

lemmas eval_assemble =
  assemble_def getExtraContext_def merge_context_def date_override_def patch_flag_def
  spread_into_def annotate_commit_def annotate_note_def commit_group_value_def
  note_group_value_def plain_valid_def plain_version_def plain_patch_def read_numeral_def
  example_env_def example_options_def

lemmas eval_engine =
  createChangelog_def step_def reverse_step_def forward_step_def finish_def initial_state_def
  yield_def push_commit_def default_generateOn_def processCommit_def decode_def generate_def
  boundary_hit_def

section \<open>The claims on grouping\<close>

text \<open>
  C3 (as stated). The claim: the grouping key is \<^verbatim>\<open>commit[groupField] ?? ''\<close>, so that only
  a missing or nullish field maps to the empty key. The commit \<^verbatim>\<open>{type: 0}\<close> carries the
  field with a value that is not nullish; the key of the specification is \<^verbatim>\<open>'0'\<close>, the
  code computes the empty key with \<^verbatim>\<open>||\<close> and files the commit under the title
  \<^verbatim>\<open>false\<close>.
\<close>

theorem falsy_field_counterexample:
  "has_own (JObj [(''type'', JNum 0)]) ''type'' \<and>
   \<not> nullish (JNum 0) \<and>
   spec_group_key example_runtime ''type'' (JObj [(''type'', JNum 0)]) = Inr ''0'' \<and>
   group_key example_runtime ''type'' (JObj [(''type'', JNum 0)]) = Inr [] \<and>
   getCommitGroups example_runtime ''type'' [JObj [(''type'', JNum 0)]] None None =
     Inr [\<lparr> cg_title = JBool False, cg_commits = [JObj [(''type'', JNum 0)]] \<rparr>]"
  by (simp add: eval_grouping)

text \<open>
  C3 (amended). Whenever \<^verbatim>\<open>getCommitGroups\<close> returns, with or without comparators,
  every commit of the list is in the group whose title belongs to the key
  \<^verbatim>\<open>commit[groupField] || ''\<close> and in no group of another title; the empty key has the
  title \<^verbatim>\<open>false\<close>, so every commit whose grouping field is falsy (absent,
  \<^verbatim>\<open>undefined\<close>, \<^verbatim>\<open>null\<close>, \<^verbatim>\<open>false\<close>, \<^verbatim>\<open>0\<close> or the empty string) is in the group
  titled \<^verbatim>\<open>false\<close>.
\<close>

theorem commit_lands_in_group_of_key:
  assumes "getCommitGroups rt field commits gsort csort = Inr groups"
    and "c \<in> set commits"
  shows "\<exists>v. js_read rt c field = Inr v \<and>
           (\<exists>g \<in> set groups. cg_title g = title_of_key (to_string rt (if truthy v then v else JStr [])) \<and>
                               c \<in> set (cg_commits g)) \<and>
           (\<forall>g \<in> set groups. c \<in> set (cg_commits g) \<longrightarrow>
                               cg_title g = title_of_key (to_string rt (if truthy v then v else JStr []))) \<and>
           (\<not> truthy v \<longrightarrow> (\<exists>g \<in> set groups. cg_title g = JBool False \<and> c \<in> set (cg_commits g)))"
proof -
  from getCommitGroups_member[OF assms] obtain k where k: "group_key rt field c = Inr k"
    and a: "\<exists>g \<in> set groups. cg_title g = title_of_key k \<and> c \<in> set (cg_commits g)"
    and b: "\<forall>g \<in> set groups. c \<in> set (cg_commits g) \<longrightarrow> cg_title g = title_of_key k"
    by blast
  from k obtain v where v: "js_read rt c field = Inr v"
    and kv: "k = to_string rt (if truthy v then v else JStr [])"
    by (auto simp: group_key_def split: sum.splits)
  have "\<not> truthy v \<Longrightarrow> title_of_key k = JBool False"
    by (simp add: kv title_of_key_def)
  with a have c: "\<not> truthy v \<longrightarrow> (\<exists>g \<in> set groups. cg_title g = JBool False \<and> c \<in> set (cg_commits g))"
    by auto
  from v a b c show ?thesis unfolding kv by blast
qed

text \<open>
  C3 (witness). A commit without the grouping field, next to one that has it.
\<close>

theorem commit_lands_in_group_of_key_witness:
  "getCommitGroups example_runtime ''type''
     [JObj [(''type'', JStr ''feat'')], JObj [(''hash'', JStr ''abc'')]] None None =
     Inr [\<lparr> cg_title = JStr ''feat'', cg_commits = [JObj [(''type'', JStr ''feat'')]] \<rparr>,
          \<lparr> cg_title = JBool False, cg_commits = [JObj [(''hash'', JStr ''abc'')]] \<rparr>] \<and>
   JObj [(''hash'', JStr ''abc'')] \<in> set [JObj [(''type'', JStr ''feat'')], JObj [(''hash'', JStr ''abc'')]] \<and>
   (\<exists>v. js_read example_runtime (JObj [(''hash'', JStr ''abc'')]) ''type'' = Inr v \<and> \<not> truthy v \<and>
     (\<exists>g \<in> set [\<lparr> cg_title = JStr ''feat'', cg_commits = [JObj [(''type'', JStr ''feat'')]] \<rparr>,
          \<lparr> cg_title = JBool False, cg_commits = [JObj [(''hash'', JStr ''abc'')]] \<rparr>].
        cg_title g = JBool False \<and> JObj [(''hash'', JStr ''abc'')] \<in> set (cg_commits g)))"
proof -
  let ?c = "JObj [(''hash'', JStr ''abc'')]"
  let ?cs = "[JObj [(''type'', JStr ''feat'')], ?c]"
  let ?G = "[\<lparr> cg_title = JStr ''feat'', cg_commits = [JObj [(''type'', JStr ''feat'')]] \<rparr>,
          \<lparr> cg_title = JBool False, cg_commits = [?c] \<rparr>]"
  have h1: "getCommitGroups example_runtime ''type'' ?cs None None = Inr ?G"
    by (simp add: eval_grouping)
  have h2: "?c \<in> set ?cs" by simp
  have r: "js_read example_runtime ?c ''type'' = Inr JUndefined" by (simp add: eval_runtime)
  from commit_lands_in_group_of_key[OF h1 h2] r
  have "\<exists>g \<in> set ?G. cg_title g = JBool False \<and> ?c \<in> set (cg_commits g)"
    by auto
  with h1 h2 r show ?thesis by auto
qed

text \<open>
  The order of the groups in general. Without comparators, whenever \<^verbatim>\<open>getCommitGroups\<close>
  returns, there is one group for each key, holding the commits of that key in their
  original relative order; the groups whose keys are array indices (canonical decimal
  numerals below \<open>2^32 - 1\<close>) come first, in ascending numeric order, and the other groups
  follow in the order in which their keys are first met. \<^verbatim>\<open>getNoteGroups\<close> on notes with
  primitive titles lists the groups in the order in which the titles are first seen, each
  with its notes in their original relative order.
\<close>

lemma unsorted_groups_order:
  "(getCommitGroups rt field commits None None = Inr groups \<and>
    map (group_key rt field) commits = map Inr keys \<longrightarrow>
      (\<exists>ks. groups = map (\<lambda>k. \<lparr> cg_title = title_of_key k,
                                   cg_commits = commits_keyed rt field k commits \<rparr>) ks \<and>
            distinct ks \<and> set ks = set keys \<and>
            ks = filter is_index ks @ filter (\<lambda>k. \<not> is_index k) ks \<and>
            sorted (map index_value (filter is_index ks)) \<and>
            filter (\<lambda>k. \<not> is_index k) ks = first_seen (filter (\<lambda>k. \<not> is_index k) keys)) \<and>
      ((\<forall>k \<in> set keys. \<not> is_index k) \<longrightarrow>
         groups = map (\<lambda>k. \<lparr> cg_title = title_of_key k,
                              cg_commits = commits_keyed rt field k commits \<rparr>) (first_seen keys))) \<and>
   (getNoteGroups rt nts None None = Inr ngroups \<and>
    map (\<lambda>n. js_read rt n ''title'') nts = map Inr titles \<and> (\<forall>t \<in> set titles. primitive t) \<longrightarrow>
      ngroups = map (\<lambda>t. \<lparr> ng_title = t, ng_notes = notes_titled rt t nts \<rparr>) (first_seen titles))"
proof (intro conjI impI)
  assume h: "getCommitGroups rt field commits None None = Inr groups \<and>
    map (group_key rt field) commits = map Inr keys"
  from getCommitGroups_unsorted[OF conjunct1[OF h] conjunct2[OF h]]
  show "\<exists>ks. groups = map (\<lambda>k. \<lparr> cg_title = title_of_key k,
                                   cg_commits = commits_keyed rt field k commits \<rparr>) ks \<and>
            distinct ks \<and> set ks = set keys \<and>
            ks = filter is_index ks @ filter (\<lambda>k. \<not> is_index k) ks \<and>
            sorted (map index_value (filter is_index ks)) \<and>
            filter (\<lambda>k. \<not> is_index k) ks = first_seen (filter (\<lambda>k. \<not> is_index k) keys)"
    unfolding commits_keyed_def by blast
next
  assume h: "getCommitGroups rt field commits None None = Inr groups \<and>
    map (group_key rt field) commits = map Inr keys"
  assume non: "\<forall>k \<in> set keys. \<not> is_index k"
  from getCommitGroups_unsorted[OF conjunct1[OF h] conjunct2[OF h]]
  obtain ks where g: "groups = map (\<lambda>k. \<lparr> cg_title = title_of_key k,
                                   cg_commits = filter (\<lambda>c. group_key rt field c = Inr k) commits \<rparr>) ks"
    and s: "set ks = set keys"
    and f: "filter (\<lambda>k. \<not> is_index k) ks = first_seen (filter (\<lambda>k. \<not> is_index k) keys)"
    by blast
  from non have "filter (\<lambda>k. \<not> is_index k) keys = keys"
    by (simp add: filter_id_conv)
  moreover from non s have "filter (\<lambda>k. \<not> is_index k) ks = ks"
    by (simp add: filter_id_conv)
  ultimately have "ks = first_seen keys"
    using f by simp
  with g show "groups = map (\<lambda>k. \<lparr> cg_title = title_of_key k,
                              cg_commits = commits_keyed rt field k commits \<rparr>) (first_seen keys)"
    by (simp add: commits_keyed_def)
next
  assume h: "getNoteGroups rt nts None None = Inr ngroups \<and>
    map (\<lambda>n. js_read rt n ''title'') nts = map Inr titles \<and> (\<forall>t \<in> set titles. primitive t)"
  then have 1: "getNoteGroups rt nts None None = Inr ngroups"
    and 2: "map (\<lambda>n. js_read rt n ''title'') nts = map Inr titles"
    and 3: "\<forall>t \<in> set titles. primitive t"
    by blast+
  from getNoteGroups_unsorted[OF 1 2 3]
  show "ngroups = map (\<lambda>t. \<lparr> ng_title = t, ng_notes = notes_titled rt t nts \<rparr>) (first_seen titles)"
    by (simp add: notes_titled_def)
qed

text \<open>
  C7 (failing input). \<^verbatim>\<open>getCommitGroups('type', [{type: '2'}, {type: '1'}])\<close> without
  comparators. The keys \<^verbatim>\<open>'2'\<close> and \<^verbatim>\<open>'1'\<close> are met in this order, and the groups are
  listed as \<^verbatim>\<open>'1'\<close>, \<^verbatim>\<open>'2'\<close>, not in encounter order: the accumulator is an object,
  which \<^verbatim>\<open>Object.entries\<close> enumerates with the integer-like keys first, in ascending
  order. \<^verbatim>\<open>getNoteGroups\<close>, which accumulates in an array, lists the titles
  \<^verbatim>\<open>'2'\<close>, \<^verbatim>\<open>'1'\<close> in the order in which they are met; and with the keys \<^verbatim>\<open>'b'\<close>,
  \<^verbatim>\<open>'a'\<close> the commit groups are in encounter order too.
\<close>

theorem integer_like_keys_reordered:
  "map (group_key example_runtime ''type'')
     [JObj [(''type'', JStr ''2'')], JObj [(''type'', JStr ''1'')]] = [Inr ''2'', Inr ''1''] \<and>
   first_seen [''2'', ''1''] = [''2'', ''1''] \<and>
   getCommitGroups example_runtime ''type''
     [JObj [(''type'', JStr ''2'')], JObj [(''type'', JStr ''1'')]] None None =
     Inr [\<lparr> cg_title = JStr ''1'', cg_commits = [JObj [(''type'', JStr ''1'')]] \<rparr>,
          \<lparr> cg_title = JStr ''2'', cg_commits = [JObj [(''type'', JStr ''2'')]] \<rparr>] \<and>
   getNoteGroups example_runtime
     [JObj [(''title'', JStr ''2'')], JObj [(''title'', JStr ''1'')]] None None =
     Inr [\<lparr> ng_title = JStr ''2'', ng_notes = [JObj [(''title'', JStr ''2'')]] \<rparr>,
          \<lparr> ng_title = JStr ''1'', ng_notes = [JObj [(''title'', JStr ''1'')]] \<rparr>] \<and>
   getCommitGroups example_runtime ''type''
     [JObj [(''type'', JStr ''b'')], JObj [(''type'', JStr ''a'')]] None None =
     Inr [\<lparr> cg_title = JStr ''b'', cg_commits = [JObj [(''type'', JStr ''b'')]] \<rparr>,
          \<lparr> cg_title = JStr ''a'', cg_commits = [JObj [(''type'', JStr ''a'')]] \<rparr>]"
  by (simp add: eval_grouping)

section \<open>The claims on the context\<close>

text \<open>
  C6 (as stated). The claim: outside the case of a valid version with a non-zero patch
  number and no \<^verbatim>\<open>isPatch\<close> supplied, the earlier \<^verbatim>\<open>isPatch\<close> or its absence is kept.
  With the version \<^verbatim>\<open>1.0.0\<close> and no \<^verbatim>\<open>isPatch\<close> the assembled context has
  \<^verbatim>\<open>isPatch = false\<close>; with the version \<^verbatim>\<open>1.0.1\<close> and \<^verbatim>\<open>isPatch = false\<close> supplied
  it has \<^verbatim>\<open>isPatch = true\<close>.
\<close>

theorem isPatch_counterexample:
  "\<not> has_own (JObj [(''version'', JStr ''1.0.0'')]) ''isPatch'' \<and>
   assemble example_env example_options [] (JObj [(''version'', JStr ''1.0.0'')]) JUndefined =
     Inr ([], JObj [(''version'', JStr ''1.0.0''), (''commitGroups'', JArr [] []),
                    (''noteGroups'', JArr [] []), (''isPatch'', JBool False)]) \<and>
   has_own (JObj [(''version'', JStr ''1.0.1''), (''isPatch'', JBool False)]) ''isPatch'' \<and>
   assemble example_env example_options []
       (JObj [(''version'', JStr ''1.0.1''), (''isPatch'', JBool False)]) JUndefined =
     Inr ([], JObj [(''version'', JStr ''1.0.1''), (''isPatch'', JBool True),
                    (''commitGroups'', JArr [] []), (''noteGroups'', JArr [] [])])"
  by (simp add: eval_assemble eval_grouping)

lemma map_of_patch_flag_other: "k \<noteq> ''isPatch'' \<Longrightarrow> map_of (patch_flag env c) k = map_of c k"
  by (simp add: patch_flag_def map_of_obj_put)

text \<open>
  C6 (amended). The assembled context is the merged context after the step on
  \<^verbatim>\<open>isPatch\<close>. When the version of the merged context is truthy and a valid semantic
  version, \<^verbatim>\<open>isPatch\<close> is set: to the earlier \<^verbatim>\<open>isPatch\<close> when that is truthy, and
  otherwise to the boolean "the patch number is not zero". When the version is falsy or
  not valid, \<^verbatim>\<open>isPatch\<close> stays as it was, present or absent. No other field changes.
\<close>

theorem isPatch_computation:
  "(assemble env opts commits ctx keyCommit = Inr (filtered, result) \<longrightarrow>
      (\<exists>extra merged. merge_context (runtime env) ctx keyCommit extra = Inr merged \<and>
                      result = JObj (patch_flag env merged))) \<and>
   (truthy (lookup_prop merged ''version'') \<and> semver_valid env (lookup_prop merged ''version'') \<longrightarrow>
      map_of (patch_flag env merged) ''isPatch'' =
        Some (if truthy (lookup_prop merged ''isPatch'') then lookup_prop merged ''isPatch''
              else JBool (semver_patch env (lookup_prop merged ''version'') \<noteq> 0))) \<and>
   (\<not> (truthy (lookup_prop merged ''version'') \<and> semver_valid env (lookup_prop merged ''version'')) \<longrightarrow>
      map_of (patch_flag env merged) ''isPatch'' = map_of merged ''isPatch'') \<and>
   (\<forall>k. k \<noteq> ''isPatch'' \<longrightarrow> map_of (patch_flag env merged) k = map_of merged k)"
proof (intro conjI impI allI)
  assume "assemble env opts commits ctx keyCommit = Inr (filtered, result)"
  then show "\<exists>extra merged. merge_context (runtime env) ctx keyCommit extra = Inr merged \<and>
                      result = JObj (patch_flag env merged)"
    by (auto simp: assemble_def split: sum.splits prod.splits)
next
  assume "truthy (lookup_prop merged ''version'') \<and> semver_valid env (lookup_prop merged ''version'')"
  then show "map_of (patch_flag env merged) ''isPatch'' =
        Some (if truthy (lookup_prop merged ''isPatch'') then lookup_prop merged ''isPatch''
              else JBool (semver_patch env (lookup_prop merged ''version'') \<noteq> 0))"
    by (simp add: patch_flag_def map_of_obj_put)
next
  assume "\<not> (truthy (lookup_prop merged ''version'') \<and> semver_valid env (lookup_prop merged ''version''))"
  then show "map_of (patch_flag env merged) ''isPatch'' = map_of merged ''isPatch''"
    by (auto simp: patch_flag_def)
next
  fix k :: string assume "k \<noteq> ''isPatch''"
  then show "map_of (patch_flag env merged) k = map_of merged k"
    by (rule map_of_patch_flag_other)
qed

text \<open>
  C6 (witness). The version \<^verbatim>\<open>1.0.1\<close> without \<^verbatim>\<open>isPatch\<close>, and a version that is not
  valid next to \<^verbatim>\<open>isPatch = 7\<close>.
\<close>

theorem isPatch_computation_witness:
  "assemble example_env example_options [] (JObj [(''version'', JStr ''1.0.1'')]) JUndefined =
     Inr ([], JObj [(''version'', JStr ''1.0.1''), (''commitGroups'', JArr [] []),
                    (''noteGroups'', JArr [] []), (''isPatch'', JBool True)]) \<and>
   truthy (lookup_prop [(''version'', JStr ''1.0.1'')] ''version'') \<and>
   semver_valid example_env (lookup_prop [(''version'', JStr ''1.0.1'')] ''version'') \<and>
   map_of (patch_flag example_env [(''version'', JStr ''1.0.1'')]) ''isPatch'' = Some (JBool True) \<and>
   \<not> (truthy (lookup_prop [(''version'', JStr ''next''), (''isPatch'', JNum 7)] ''version'') \<and>
      semver_valid example_env (lookup_prop [(''version'', JStr ''next''), (''isPatch'', JNum 7)] ''version'')) \<and>
   map_of (patch_flag example_env [(''version'', JStr ''next''), (''isPatch'', JNum 7)]) ''isPatch'' =
     Some (JNum 7)"
proof -
  let ?m = "[(''version'', JStr ''1.0.1'')]"
  let ?n = "[(''version'', JStr ''next''), (''isPatch'', JNum 7)]"
  have a: "assemble example_env example_options [] (JObj ?m) JUndefined =
     Inr ([], JObj [(''version'', JStr ''1.0.1''), (''commitGroups'', JArr [] []),
                    (''noteGroups'', JArr [] []), (''isPatch'', JBool True)])"
    by (simp add: eval_assemble eval_grouping)
  have v: "truthy (lookup_prop ?m ''version'') \<and> semver_valid example_env (lookup_prop ?m ''version'')"
    by (simp add: eval_assemble eval_grouping)
  have p: "semver_patch example_env (lookup_prop ?m ''version'') = 1"
    by (simp add: eval_assemble eval_grouping)
  have i: "\<not> truthy (lookup_prop ?m ''isPatch'')"
    by (simp add: lookup_prop_def)
  have w: "\<not> (truthy (lookup_prop ?n ''version'') \<and> semver_valid example_env (lookup_prop ?n ''version''))"
    by (simp add: eval_assemble eval_grouping)
  from v p i isPatch_computation[of example_env example_options "[]" "JObj ?m" JUndefined "[]"
      "JObj [(''version'', JStr ''1.0.1''), (''commitGroups'', JArr [] []),
                    (''noteGroups'', JArr [] []), (''isPatch'', JBool True)]" ?m]
  have 1: "map_of (patch_flag example_env ?m) ''isPatch'' = Some (JBool True)"
    by simp
  from w isPatch_computation[of example_env example_options "[]" "JObj ?m" JUndefined "[]"
      "JObj [(''version'', JStr ''1.0.1''), (''commitGroups'', JArr [] []),
                    (''noteGroups'', JArr [] []), (''isPatch'', JBool True)]" ?n]
  have 2: "map_of (patch_flag example_env ?n) ''isPatch'' = Some (JNum 7)"
    by simp
  from a v 1 w 2 show ?thesis by blast
qed

lemma spread_undefined: "spread_into acc JUndefined = acc"
  by (simp add: spread_into_def)

lemma assemble_without_key:
  assumes "assemble env opts commits ctx JUndefined = Inr (filtered, result)"
  shows "\<exists>cgs ngs. result = JObj (patch_flag env
           (obj_put (obj_put (spread_into [] ctx) ''commitGroups'' cgs) ''noteGroups'' ngs))"
  using assms
  by (fastforce simp: assemble_def merge_context_def date_override_def getExtraContext_def
      spread_undefined spread_into_def[of _ "JObj _"] split: sum.splits prod.splits)

lemma assembled_fields_without_key:
  assumes "assemble env opts commits ctx JUndefined = Inr (filtered, result)"
    and "k \<noteq> ''commitGroups''" and "k \<noteq> ''noteGroups''" and "k \<noteq> ''isPatch''"
  shows "map_of (own_props result) k = map_of (spread_into [] ctx) k"
proof -
  from assemble_without_key[OF assms(1)] obtain cgs ngs where
    "result = JObj (patch_flag env
           (obj_put (obj_put (spread_into [] ctx) ''commitGroups'' cgs) ''noteGroups'' ngs))"
    by blast
  with assms(2-4) show ?thesis
    by (simp add: map_of_patch_flag_other map_of_obj_put)
qed

section \<open>The claims on the generator\<close>

lemma step_neverGenerated:
  "step env opts ctx s chunk = Inr (s', out) \<Longrightarrow>
   neverGenerated s' = (neverGenerated s \<and> \<not> boundary_hit env opts ctx s chunk)"
  by (auto simp: step_def boundary_hit_def forward_step_def reverse_step_def push_commit_def Let_def
      split: sum.splits bool.splits if_splits)

lemma run_loop_cons:
  assumes "run_loop env opts ctx s (chunk # chunks) = (out, Inr s')"
  obtains s1 out1 out2 where "step env opts ctx s chunk = Inr (s1, out1)"
    and "run_loop env opts ctx s1 chunks = (out2, Inr s')" and "out = out1 @ out2"
  using assms by (auto split: sum.splits prod.splits)

lemma run_loop_neverGenerated:
  "run_loop env opts ctx s chunks = (out, Inr s') \<Longrightarrow>
   neverGenerated s' = (neverGenerated s \<and> True \<notin> set (boundary_flags env opts ctx s chunks))"
proof (induction chunks arbitrary: s out)
  case Nil
  then show ?case by simp
next
  case (Cons chunk chunks)
  from Cons.prems obtain s1 out1 out2 where st: "step env opts ctx s chunk = Inr (s1, out1)"
    and r: "run_loop env opts ctx s1 chunks = (out2, Inr s')"
    by (rule run_loop_cons)
  from Cons.IH[OF r] step_neverGenerated[OF st] st show ?case
    by auto
qed

lemma forward_step_before_boundary:
  "\<not> reverse opts \<Longrightarrow> step env opts ctx s chunk = Inr (s', out) \<Longrightarrow> firstRelease s' \<Longrightarrow>
   firstRelease s \<and> savedKeyCommit s' = savedKeyCommit s \<and> out = []"
  by (auto simp: step_def forward_step_def push_commit_def Let_def
      split: sum.splits bool.splits if_splits)

lemma run_loop_before_boundary:
  "\<not> reverse opts \<Longrightarrow> run_loop env opts ctx s chunks = (out, Inr s') \<Longrightarrow> firstRelease s' \<Longrightarrow>
   firstRelease s \<and> savedKeyCommit s' = savedKeyCommit s \<and> out = []"
proof (induction chunks arbitrary: s out)
  case Nil
  then show ?case by simp
next
  case (Cons chunk chunks)
  from Cons.prems(2) obtain s1 out1 out2 where st: "step env opts ctx s chunk = Inr (s1, out1)"
    and r: "run_loop env opts ctx s1 chunks = (out2, Inr s')" and o: "out = out1 @ out2"
    by (rule run_loop_cons)
  from Cons.IH[OF Cons.prems(1) r Cons.prems(3)]
  have 1: "firstRelease s1 \<and> savedKeyCommit s' = savedKeyCommit s1 \<and> out2 = []" .
  with forward_step_before_boundary[OF Cons.prems(1) st] o show ?case
    by simp
qed

text \<open>
  C1. In forward mode, at a chunk whose key commit satisfies the boundary predicate, the
  group accumulated so far is rendered with \<^verbatim>\<open>savedKeyCommit\<close> as the key commit; the
  result is yielded unless this is the first closure and \<^verbatim>\<open>doFlush\<close> is false (with
  \<^verbatim>\<open>includeDetails\<close>, together with \<^verbatim>\<open>savedKeyCommit\<close>); afterwards
  \<^verbatim>\<open>firstRelease\<close> and \<^verbatim>\<open>neverGenerated\<close> are false, \<^verbatim>\<open>savedKeyCommit\<close> is the
  current key commit, and the group holds the current commit alone if it is truthy and
  nothing otherwise.
\<close>

theorem forward_boundary_step:
  assumes "\<not> reverse opts"
    and "processCommit (runtime env) (json_parse env) chunk (transform opts) ctx = Inr commit"
    and "resolve_generateOn (runtime env) (generateOn opts) (if truthy commit then commit else chunk)
           (commitsGroup s) ctx = Inr True"
    and "generate env opts (commitsGroup s) ctx (savedKeyCommit s) = Inr result"
  shows "step env opts ctx s chunk =
     Inr (\<lparr> commitsGroup = (if truthy commit then [commit] else []),
            neverGenerated = False,
            savedKeyCommit = (if truthy commit then commit else chunk),
            firstRelease = False \<rparr>,
          (if firstRelease s \<and> \<not> doFlush opts then []
           else [if includeDetails opts then Details result (savedKeyCommit s) else Plain result]))"
  using assms
  by (simp add: step_def forward_step_def push_commit_def yield_def Let_def)

text \<open>
  C1 (witness). A release chunk arriving after one ordinary commit.
\<close>

theorem forward_boundary_step_witness:
  "\<not> reverse example_options \<and>
   processCommit (runtime example_env) (json_parse example_env) (release ''1.0.0'') (transform example_options) (JObj []) =
     Inr (JObj [(''version'', JStr ''1.0.0''), (''notes'', JArr [] []), (''raw'', release ''1.0.0'')]) \<and>
   resolve_generateOn (runtime example_env) (generateOn example_options)
     (JObj [(''version'', JStr ''1.0.0''), (''notes'', JArr [] []), (''raw'', release ''1.0.0'')])
     [feat] (JObj []) = Inr True \<and>
   generate example_env example_options [feat] (JObj []) JUndefined = Inr ''undefined'' \<and>
   step example_env example_options (JObj [])
     \<lparr> commitsGroup = [feat], neverGenerated = True, savedKeyCommit = JUndefined, firstRelease = True \<rparr>
     (release ''1.0.0'') =
     Inr (\<lparr> commitsGroup = [JObj [(''version'', JStr ''1.0.0''), (''notes'', JArr [] []),
                                   (''raw'', release ''1.0.0'')]],
            neverGenerated = False,
            savedKeyCommit = JObj [(''version'', JStr ''1.0.0''), (''notes'', JArr [] []),
                                   (''raw'', release ''1.0.0'')],
            firstRelease = False \<rparr>,
          [Plain ''undefined''])"
proof -
  let ?k = "JObj [(''version'', JStr ''1.0.0''), (''notes'', JArr [] []), (''raw'', release ''1.0.0'')]"
  let ?s = "\<lparr> commitsGroup = [feat], neverGenerated = True, savedKeyCommit = JUndefined, firstRelease = True \<rparr>"
  have h1: "\<not> reverse example_options"
    by (simp add: example_options_def)
  have h2: "processCommit (runtime example_env) (json_parse example_env) (release ''1.0.0'') (transform example_options) (JObj []) = Inr ?k"
    by (simp add: eval_engine eval_assemble eval_grouping release_def)
  have h3: "resolve_generateOn (runtime example_env) (generateOn example_options) (if truthy ?k then ?k else release ''1.0.0'')
      (commitsGroup ?s) (JObj []) = Inr True"
    by (simp add: eval_engine eval_assemble eval_grouping)
  have h4: "generate example_env example_options (commitsGroup ?s) (JObj []) (savedKeyCommit ?s) = Inr ''undefined''"
    by (simp add: eval_engine eval_assemble eval_grouping feat_def)
  have o: "doFlush example_options" "\<not> includeDetails example_options"
    by (simp_all add: example_options_def)
  from forward_boundary_step[OF h1 h2 h3 h4] o
  have "step example_env example_options (JObj []) ?s (release ''1.0.0'') =
     Inr (\<lparr> commitsGroup = [?k], neverGenerated = False, savedKeyCommit = ?k, firstRelease = False \<rparr>,
          [Plain ''undefined''])"
    by simp
  with h1 h2 h3 h4 show ?thesis by simp
qed

text \<open>
  C2 (as stated). The claim: at the end of the input nothing is emitted exactly when
  \<^verbatim>\<open>doFlush\<close> is false and the mode is reverse or no emission ever happened. In forward
  mode with \<^verbatim>\<open>doFlush\<close> false and one boundary, the loop emits nothing (the first closure
  is suppressed), and the final flush is emitted all the same.
\<close>

theorem final_flush_counterexample:
  "\<not> doFlush (example_options\<lparr> doFlush := False \<rparr>) \<and>
   \<not> reverse (example_options\<lparr> doFlush := False \<rparr>) \<and>
   fst (run_loop example_env (example_options\<lparr> doFlush := False \<rparr>) (JObj []) initial_state
          [release ''2.0.0'']) = [] \<and>
   createChangelog example_env (example_options\<lparr> doFlush := False \<rparr>) (JObj []) [release ''2.0.0''] =
     ([Plain ''2.0.0''], None)"
  by (simp add: eval_engine eval_assemble eval_grouping release_def)

text \<open>
  C2 (amended). At the end of the input, \<^verbatim>\<open>neverGenerated\<close> is true exactly when the
  boundary predicate held at no chunk, whether or not anything was emitted. The generator
  stops without a final emission when \<^verbatim>\<open>doFlush\<close> is false and the mode is reverse or
  \<^verbatim>\<open>neverGenerated\<close> is true; in every other case it renders what is left in the group
  with \<^verbatim>\<open>savedKeyCommit\<close> and emits that (or ends with the error of the rendering).
\<close>

theorem final_flush:
  assumes "run_loop env opts ctx initial_state chunks = (out, Inr s)"
  shows "neverGenerated s = (True \<notin> set (boundary_flags env opts ctx initial_state chunks)) \<and>
         (\<not> doFlush opts \<and> (reverse opts \<or> neverGenerated s) \<longrightarrow>
            createChangelog env opts ctx chunks = (out, None)) \<and>
         (\<not> (\<not> doFlush opts \<and> (reverse opts \<or> neverGenerated s)) \<longrightarrow>
            (\<forall>result. generate env opts (commitsGroup s) ctx (savedKeyCommit s) = Inr result \<longrightarrow>
               createChangelog env opts ctx chunks =
                 (out @ [if includeDetails opts then Details result (savedKeyCommit s) else Plain result],
                  None)) \<and>
            (\<forall>e. generate env opts (commitsGroup s) ctx (savedKeyCommit s) = Inl e \<longrightarrow>
               createChangelog env opts ctx chunks = (out, Some e)))"
proof (intro conjI impI allI)
  show "neverGenerated s = (True \<notin> set (boundary_flags env opts ctx initial_state chunks))"
    using run_loop_neverGenerated[OF assms] by (simp add: initial_state_def)
next
  assume "\<not> doFlush opts \<and> (reverse opts \<or> neverGenerated s)"
  with assms show "createChangelog env opts ctx chunks = (out, None)"
    by (simp add: createChangelog_def finish_def)
next
  fix result
  assume "\<not> (\<not> doFlush opts \<and> (reverse opts \<or> neverGenerated s))"
    and "generate env opts (commitsGroup s) ctx (savedKeyCommit s) = Inr result"
  with assms show "createChangelog env opts ctx chunks =
      (out @ [if includeDetails opts then Details result (savedKeyCommit s) else Plain result], None)"
    by (auto simp: createChangelog_def finish_def yield_def)
next
  fix e
  assume "\<not> (\<not> doFlush opts \<and> (reverse opts \<or> neverGenerated s))"
    and "generate env opts (commitsGroup s) ctx (savedKeyCommit s) = Inl e"
  with assms show "createChangelog env opts ctx chunks = (out, Some e)"
    by (auto simp: createChangelog_def finish_def)
qed

text \<open>
  C8 (amended). In reverse mode with the default boundary predicate, two chunks whose
  commits carry a valid version yield one release each, keyed by its own commit and
  rendered from that commit alone. With \<^verbatim>\<open>doFlush\<close> false these are the only two
  emissions; with \<^verbatim>\<open>doFlush\<close> true a third follows, the final flush of the empty group
  with the key commit \<^verbatim>\<open>undefined\<close>.
\<close>

theorem reverse_two_releases:
  assumes "reverse opts" and "generateOn opts = GPredicate (default_generateOn env)"
    and "processCommit (runtime env) (json_parse env) c1 (transform opts) ctx = Inr k1" and "truthy k1"
    and "js_read (runtime env) k1 ''version'' = Inr v1" and "semver_valid env v1"
    and "processCommit (runtime env) (json_parse env) c2 (transform opts) ctx = Inr k2" and "truthy k2"
    and "js_read (runtime env) k2 ''version'' = Inr v2" and "semver_valid env v2"
    and "generate env opts [k1] ctx k1 = Inr r1" and "generate env opts [k2] ctx k2 = Inr r2"
    and "doFlush opts \<longrightarrow> generate env opts [] ctx JUndefined = Inr r3"
  shows "createChangelog env opts ctx [c1, c2] =
     ([yield opts r1 k1, yield opts r2 k2] @ (if doFlush opts then [yield opts r3 JUndefined] else []),
      None)"
proof -
  have s1: "step env opts ctx initial_state c1 =
      Inr (initial_state\<lparr> neverGenerated := False \<rparr>, [yield opts r1 k1])"
    using assms(1-6,11)
    by (simp add: step_def reverse_step_def push_commit_def default_generateOn_def initial_state_def)
  have s2: "step env opts ctx (initial_state\<lparr> neverGenerated := False \<rparr>) c2 =
      Inr (initial_state\<lparr> neverGenerated := False \<rparr>, [yield opts r2 k2])"
    using assms(1,2,7-10,12)
    by (simp add: step_def reverse_step_def push_commit_def default_generateOn_def initial_state_def)
  have r: "run_loop env opts ctx initial_state [c1, c2] =
      ([yield opts r1 k1, yield opts r2 k2], Inr (initial_state\<lparr> neverGenerated := False \<rparr>))"
    by (simp add: s1 s2)
  have f: "commitsGroup (initial_state\<lparr> neverGenerated := False \<rparr>) = []"
    "savedKeyCommit (initial_state\<lparr> neverGenerated := False \<rparr>) = JUndefined"
    by (simp_all add: initial_state_def)
  show ?thesis
    unfolding createChangelog_def r using assms(1,13) by (simp add: finish_def f)
qed


text \<open>
  C2 (witness). Three runs: reverse mode without flush, forward mode without flush after
  one boundary, and a run whose final rendering fails on a commit without notes.
\<close>

theorem final_flush_witness:
  "run_loop example_env (example_options\<lparr> reverse := True, doFlush := False \<rparr>) (JObj []) initial_state
     [release ''2.0.0''] =
     ([Plain ''2.0.0''],
      Inr \<lparr> commitsGroup = [], neverGenerated = False, savedKeyCommit = JUndefined,
            firstRelease = True \<rparr>) \<and>
   createChangelog example_env (example_options\<lparr> reverse := True, doFlush := False \<rparr>) (JObj [])
     [release ''2.0.0''] = ([Plain ''2.0.0''], None) \<and>
   fst (run_loop example_env (example_options\<lparr> doFlush := False \<rparr>) (JObj []) initial_state
     [release ''2.0.0'']) = [] \<and>
   createChangelog example_env (example_options\<lparr> doFlush := False \<rparr>) (JObj [])
     [release ''2.0.0''] = ([] @ [Plain ''2.0.0''], None) \<and>
   fst (run_loop example_env example_options (JObj []) initial_state
     [JObj [(''version'', JStr ''2.0.0'')]]) = [Plain ''undefined''] \<and>
   createChangelog example_env example_options (JObj [])
     [JObj [(''version'', JStr ''2.0.0'')]] = ([Plain ''undefined''], Some TypeError)"
proof -
  let ?k = "JObj [(''version'', JStr ''2.0.0''), (''notes'', JArr [] []), (''raw'', release ''2.0.0'')]"
  let ?b = "JObj [(''version'', JStr ''2.0.0''), (''raw'', JObj [(''version'', JStr ''2.0.0'')])]"
  let ?o1 = "example_options\<lparr> reverse := True, doFlush := False \<rparr>"
  let ?o2 = "example_options\<lparr> doFlush := False \<rparr>"
  let ?s1 = "\<lparr> commitsGroup = [], neverGenerated = False, savedKeyCommit = JUndefined,
            firstRelease = True \<rparr>"
  let ?s2 = "\<lparr> commitsGroup = [?k], neverGenerated = False, savedKeyCommit = ?k, firstRelease = False \<rparr>"
  let ?s3 = "\<lparr> commitsGroup = [?b], neverGenerated = False, savedKeyCommit = ?b, firstRelease = False \<rparr>"
  have r1: "run_loop example_env ?o1 (JObj []) initial_state [release ''2.0.0''] = ([Plain ''2.0.0''], Inr ?s1)"
    by (simp add: eval_engine eval_assemble eval_grouping release_def)
  have c1: "\<not> doFlush ?o1 \<and> (reverse ?o1 \<or> neverGenerated ?s1)"
    by (simp add: example_options_def)
  from c1 final_flush[OF r1]
  have a: "createChangelog example_env ?o1 (JObj []) [release ''2.0.0''] = ([Plain ''2.0.0''], None)"
    by blast
  have r2: "run_loop example_env ?o2 (JObj []) initial_state [release ''2.0.0''] = ([], Inr ?s2)"
    by (simp add: eval_engine eval_assemble eval_grouping release_def)
  have c2: "\<not> (\<not> doFlush ?o2 \<and> (reverse ?o2 \<or> neverGenerated ?s2))"
    by (simp add: example_options_def)
  have g2: "generate example_env ?o2 (commitsGroup ?s2) (JObj []) (savedKeyCommit ?s2) = Inr ''2.0.0''"
    by (simp add: eval_engine eval_assemble eval_grouping release_def)
  have d2: "\<not> includeDetails ?o2"
    by (simp add: example_options_def)
  from c2 g2 d2 final_flush[OF r2]
  have b: "createChangelog example_env ?o2 (JObj []) [release ''2.0.0''] = ([] @ [Plain ''2.0.0''], None)"
    by simp
  have r3: "run_loop example_env example_options (JObj []) initial_state
      [JObj [(''version'', JStr ''2.0.0'')]] = ([Plain ''undefined''], Inr ?s3)"
    by (simp add: eval_engine eval_assemble eval_grouping)
  have c3: "\<not> (\<not> doFlush example_options \<and> (reverse example_options \<or> neverGenerated ?s3))"
    by (simp add: example_options_def)
  have g3: "generate example_env example_options (commitsGroup ?s3) (JObj []) (savedKeyCommit ?s3) = Inl TypeError"
    by (simp add: eval_engine eval_assemble eval_grouping)
  from c3 g3 final_flush[OF r3]
  have c: "createChangelog example_env example_options (JObj [])
      [JObj [(''version'', JStr ''2.0.0'')]] = ([Plain ''undefined''], Some TypeError)"
    by blast
  from r1 a r2 b r3 c show ?thesis by simp
qed

text \<open>
  C8 (as stated). The claim: the two-element input yields exactly two releases. With the
  default \<^verbatim>\<open>doFlush = true\<close> the generator yields three values, the last one rendered from
  the empty group with the key commit \<^verbatim>\<open>undefined\<close>.
\<close>

theorem reverse_three_emissions_counterexample:
  "reverse (example_options\<lparr> reverse := True \<rparr>) \<and>
   generateOn (example_options\<lparr> reverse := True \<rparr>) = GPredicate (default_generateOn example_env) \<and>
   semver_valid example_env (JStr ''2.0.0'') \<and> semver_valid example_env (JStr ''1.0.0'') \<and>
   createChangelog example_env (example_options\<lparr> reverse := True \<rparr>) (JObj [])
     [release ''2.0.0'', release ''1.0.0''] =
     ([Plain ''2.0.0'', Plain ''1.0.0'', Plain ''undefined''], None) \<and>
   createChangelog example_env (example_options\<lparr> reverse := True, includeDetails := True \<rparr>) (JObj [])
     [release ''2.0.0'', release ''1.0.0''] =
     ([Details ''2.0.0'' (JObj [(''version'', JStr ''2.0.0''), (''notes'', JArr [] []),
                                (''raw'', release ''2.0.0'')]),
       Details ''1.0.0'' (JObj [(''version'', JStr ''1.0.0''), (''notes'', JArr [] []),
                                (''raw'', release ''1.0.0'')]),
       Details ''undefined'' JUndefined], None)"
  by (simp add: eval_engine eval_assemble eval_grouping release_def)

text \<open>
  C8 (witness). The input \<^verbatim>\<open>2.0.0\<close>, \<^verbatim>\<open>1.0.0\<close> without and with the final flush.
\<close>

theorem reverse_two_releases_witness:
  "createChangelog example_env (example_options\<lparr> reverse := True, doFlush := False \<rparr>) (JObj [])
     [release ''2.0.0'', release ''1.0.0''] =
     ([Plain ''2.0.0'', Plain ''1.0.0''], None) \<and>
   createChangelog example_env (example_options\<lparr> reverse := True \<rparr>) (JObj [])
     [release ''2.0.0'', release ''1.0.0''] =
     ([Plain ''2.0.0'', Plain ''1.0.0'', Plain ''undefined''], None)"
proof -
  let ?k1 = "JObj [(''version'', JStr ''2.0.0''), (''notes'', JArr [] []), (''raw'', release ''2.0.0'')]"
  let ?k2 = "JObj [(''version'', JStr ''1.0.0''), (''notes'', JArr [] []), (''raw'', release ''1.0.0'')]"
  let ?o1 = "example_options\<lparr> reverse := True, doFlush := False \<rparr>"
  let ?o2 = "example_options\<lparr> reverse := True \<rparr>"
  have v: "js_read (runtime example_env) ?k1 ''version'' = Inr (JStr ''2.0.0'')"
    "js_read (runtime example_env) ?k2 ''version'' = Inr (JStr ''1.0.0'')"
    "truthy ?k1" "truthy ?k2"
    "semver_valid example_env (JStr ''2.0.0'')" "semver_valid example_env (JStr ''1.0.0'')"
    by (simp_all add: eval_assemble eval_grouping)
  have o1: "reverse ?o1" "generateOn ?o1 = GPredicate (default_generateOn example_env)"
    "\<not> doFlush ?o1" "\<not> includeDetails ?o1"
    by (simp_all add: example_options_def)
  have p1: "processCommit (runtime example_env) (json_parse example_env) (release ''2.0.0'') (transform ?o1) (JObj []) = Inr ?k1"
    "processCommit (runtime example_env) (json_parse example_env) (release ''1.0.0'') (transform ?o1) (JObj []) = Inr ?k2"
    by (simp_all add: eval_engine eval_assemble eval_grouping release_def)
  have g1: "generate example_env ?o1 [?k1] (JObj []) ?k1 = Inr ''2.0.0''"
    "generate example_env ?o1 [?k2] (JObj []) ?k2 = Inr ''1.0.0''"
    by (simp_all add: eval_engine eval_assemble eval_grouping release_def)
  have f1: "doFlush ?o1 \<longrightarrow> generate example_env ?o1 [] (JObj []) JUndefined = Inr ''undefined''"
    by (simp add: example_options_def)
  from reverse_two_releases[OF o1(1) o1(2) p1(1) v(3) v(1) v(5) p1(2) v(4) v(2) v(6) g1(1) g1(2) f1] o1(3,4)
  have a: "createChangelog example_env ?o1 (JObj []) [release ''2.0.0'', release ''1.0.0''] =
     ([Plain ''2.0.0'', Plain ''1.0.0''], None)"
    by (simp add: yield_def)
  have o2: "reverse ?o2" "generateOn ?o2 = GPredicate (default_generateOn example_env)"
    "doFlush ?o2" "\<not> includeDetails ?o2"
    by (simp_all add: example_options_def)
  have p2: "processCommit (runtime example_env) (json_parse example_env) (release ''2.0.0'') (transform ?o2) (JObj []) = Inr ?k1"
    "processCommit (runtime example_env) (json_parse example_env) (release ''1.0.0'') (transform ?o2) (JObj []) = Inr ?k2"
    by (simp_all add: eval_engine eval_assemble eval_grouping release_def)
  have g2: "generate example_env ?o2 [?k1] (JObj []) ?k1 = Inr ''2.0.0''"
    "generate example_env ?o2 [?k2] (JObj []) ?k2 = Inr ''1.0.0''"
    by (simp_all add: eval_engine eval_assemble eval_grouping release_def)
  have f2: "doFlush ?o2 \<longrightarrow> generate example_env ?o2 [] (JObj []) JUndefined = Inr ''undefined''"
    by (simp add: eval_engine eval_assemble eval_grouping)
  from reverse_two_releases[OF o2(1) o2(2) p2(1) v(3) v(1) v(5) p2(2) v(4) v(2) v(6) g2(1) g2(2) f2] o2(3,4)
  have b: "createChangelog example_env ?o2 (JObj []) [release ''2.0.0'', release ''1.0.0''] =
     ([Plain ''2.0.0'', Plain ''1.0.0'', Plain ''undefined''], None)"
    by (simp add: yield_def)
  from a b show ?thesis by simp
qed







lemma forward_step_at_boundary:
  assumes "\<not> reverse opts" and "boundary_hit env opts ctx s chunk"
    and "step env opts ctx s chunk = Inr (s', out)"
  shows "\<exists>result. generate env opts (commitsGroup s) ctx (savedKeyCommit s) = Inr result \<and>
           out = (if firstRelease s \<and> \<not> doFlush opts then []
                  else [if includeDetails opts then Details result (savedKeyCommit s) else Plain result])"
  using assms
  by (auto simp: boundary_hit_def step_def forward_step_def yield_def Let_def
      split: sum.splits bool.splits if_splits)

lemma forward_step_no_boundary:
  "\<not> reverse opts \<Longrightarrow> step env opts ctx s chunk = Inr (s', out) \<Longrightarrow>
   \<not> boundary_hit env opts ctx s chunk \<Longrightarrow>
   firstRelease s' = firstRelease s \<and> savedKeyCommit s' = savedKeyCommit s \<and> out = []"
  by (auto simp: step_def boundary_hit_def forward_step_def push_commit_def Let_def
      split: sum.splits bool.splits if_splits)

lemma run_loop_no_boundary:
  "\<not> reverse opts \<Longrightarrow> run_loop env opts ctx s chunks = (out, Inr s') \<Longrightarrow>
   True \<notin> set (boundary_flags env opts ctx s chunks) \<Longrightarrow>
   firstRelease s' = firstRelease s \<and> savedKeyCommit s' = savedKeyCommit s \<and> out = []"
proof (induction chunks arbitrary: s out)
  case Nil
  then show ?case by simp
next
  case (Cons chunk chunks)
  from Cons.prems(2) obtain s1 out1 out2 where st: "step env opts ctx s chunk = Inr (s1, out1)"
    and r: "run_loop env opts ctx s1 chunks = (out2, Inr s')" and o: "out = out1 @ out2"
    by (rule run_loop_cons)
  from Cons.prems(3) st have nb: "\<not> boundary_hit env opts ctx s chunk"
    and rest: "True \<notin> set (boundary_flags env opts ctx s1 chunks)"
    by auto
  from Cons.IH[OF Cons.prems(1) r rest]
  have 1: "firstRelease s' = firstRelease s1 \<and> savedKeyCommit s' = savedKeyCommit s1 \<and> out2 = []" .
  with forward_step_no_boundary[OF Cons.prems(1) st nb] o show ?case
    by simp
qed

lemma generate_assemble:
  "generate env opts commits ctx keyCommit = Inr result \<Longrightarrow>
   \<exists>filtered assembled final.
      assemble env opts commits ctx keyCommit = Inr (filtered, assembled) \<and>
      finalizeContext opts assembled filtered keyCommit commits = Inr final \<and>
      render env final = Inr result"
  by (auto simp: generate_def split: sum.splits prod.splits)

text \<open>
  C10. In forward mode, a run in which the boundary predicate has held at no chunk so far
  ends in a state where \<^verbatim>\<open>firstRelease\<close> is still true and \<^verbatim>\<open>savedKeyCommit\<close> is
  still \<^verbatim>\<open>undefined\<close>, and it has emitted nothing. A boundary at the next chunk, the very
  first one, therefore renders the group with the key commit \<^verbatim>\<open>undefined\<close>, and when the
  input ends there instead, the final flush renders with the key commit \<^verbatim>\<open>undefined\<close>;
  with \<^verbatim>\<open>includeDetails\<close> the emission carries \<^verbatim>\<open>keyCommit = undefined\<close>. A rendering
  with the key commit \<^verbatim>\<open>undefined\<close> goes through a context assembled from the base
  context, \<^verbatim>\<open>commitGroups\<close>, \<^verbatim>\<open>noteGroups\<close> and the step on \<^verbatim>\<open>isPatch\<close> alone: every
  other field, the date among them, is the one of the base context.
\<close>

theorem first_release_has_no_key:
  "(\<not> reverse opts \<and> run_loop env opts ctx initial_state chunks = (out, Inr s) \<and>
    True \<notin> set (boundary_flags env opts ctx initial_state chunks) \<longrightarrow>
      firstRelease s \<and> savedKeyCommit s = JUndefined \<and> out = [] \<and>
      (\<forall>chunk s' out'.
         boundary_hit env opts ctx s chunk \<and> step env opts ctx s chunk = Inr (s', out') \<longrightarrow>
           (\<exists>result. generate env opts (commitsGroup s) ctx JUndefined = Inr result \<and>
              out' = (if doFlush opts
                      then [if includeDetails opts then Details result JUndefined else Plain result]
                      else []))) \<and>
      createChangelog env opts ctx chunks =
        (if doFlush opts
         then (case generate env opts (commitsGroup s) ctx JUndefined of
                 Inl e \<Rightarrow> ([], Some e)
               | Inr result \<Rightarrow>
                   ([if includeDetails opts then Details result JUndefined else Plain result], None))
         else ([], None))) \<and>
   (generate env opts commits ctx JUndefined = Inr rendered \<longrightarrow>
      (\<exists>filtered assembled final cgs ngs.
         assemble env opts commits ctx JUndefined = Inr (filtered, assembled) \<and>
         finalizeContext opts assembled filtered JUndefined commits = Inr final \<and>
         render env final = Inr rendered \<and>
         assembled = JObj (patch_flag env
           (obj_put (obj_put (spread_into [] ctx) ''commitGroups'' cgs) ''noteGroups'' ngs)) \<and>
         (\<forall>k. k \<notin> {''commitGroups'', ''noteGroups'', ''isPatch''} \<longrightarrow>
              map_of (own_props assembled) k = map_of (spread_into [] ctx) k)))"
proof (intro conjI impI allI)
  assume h: "\<not> reverse opts \<and> run_loop env opts ctx initial_state chunks = (out, Inr s) \<and>
    True \<notin> set (boundary_flags env opts ctx initial_state chunks)"
  then have 1: "\<not> reverse opts" and 2: "run_loop env opts ctx initial_state chunks = (out, Inr s)"
    and 3: "True \<notin> set (boundary_flags env opts ctx initial_state chunks)"
    by blast+
  from run_loop_no_boundary[OF 1 2 3]
  show "firstRelease s" and "savedKeyCommit s = JUndefined" and "out = []"
    by (simp_all add: initial_state_def)
next
  fix chunk s' out'
  assume h: "\<not> reverse opts \<and> run_loop env opts ctx initial_state chunks = (out, Inr s) \<and>
    True \<notin> set (boundary_flags env opts ctx initial_state chunks)"
  then have 1: "\<not> reverse opts" and 2: "run_loop env opts ctx initial_state chunks = (out, Inr s)"
    and 3: "True \<notin> set (boundary_flags env opts ctx initial_state chunks)"
    by blast+
  from run_loop_no_boundary[OF 1 2 3]
  have f: "firstRelease s" and u: "savedKeyCommit s = JUndefined"
    by (simp_all add: initial_state_def)
  assume b: "boundary_hit env opts ctx s chunk \<and> step env opts ctx s chunk = Inr (s', out')"
  from forward_step_at_boundary[OF 1 conjunct1[OF b] conjunct2[OF b]]
  obtain result where g: "generate env opts (commitsGroup s) ctx (savedKeyCommit s) = Inr result"
    and o: "out' = (if firstRelease s \<and> \<not> doFlush opts then []
                  else [if includeDetails opts then Details result (savedKeyCommit s) else Plain result])"
    by blast
  have g': "generate env opts (commitsGroup s) ctx JUndefined = Inr result"
    using g unfolding u .
  have o': "out' = (if doFlush opts
                      then [if includeDetails opts then Details result JUndefined else Plain result]
                      else [])"
    using o f unfolding u by simp
  from g' o'
  show "\<exists>result. generate env opts (commitsGroup s) ctx JUndefined = Inr result \<and>
              out' = (if doFlush opts
                      then [if includeDetails opts then Details result JUndefined else Plain result]
                      else [])"
    by blast
next
  assume h: "\<not> reverse opts \<and> run_loop env opts ctx initial_state chunks = (out, Inr s) \<and>
    True \<notin> set (boundary_flags env opts ctx initial_state chunks)"
  then have 1: "\<not> reverse opts" and 2: "run_loop env opts ctx initial_state chunks = (out, Inr s)"
    and 3: "True \<notin> set (boundary_flags env opts ctx initial_state chunks)"
    by blast+
  from run_loop_no_boundary[OF 1 2 3]
  have u: "savedKeyCommit s = JUndefined" and o: "out = []"
    by (simp_all add: initial_state_def)
  from run_loop_neverGenerated[OF 2] 3 have n: "neverGenerated s"
    by (simp add: initial_state_def)
  have r: "run_loop env opts ctx initial_state chunks = ([], Inr s)"
    using 2 o by simp
  show "createChangelog env opts ctx chunks =
        (if doFlush opts
         then (case generate env opts (commitsGroup s) ctx JUndefined of
                 Inl e \<Rightarrow> ([], Some e)
               | Inr result \<Rightarrow>
                   ([if includeDetails opts then Details result JUndefined else Plain result], None))
         else ([], None))"
    unfolding createChangelog_def r using n u
    by (simp add: finish_def yield_def split: sum.splits)
next
  assume g: "generate env opts commits ctx JUndefined = Inr rendered"
  from generate_assemble[OF g] obtain filtered assembled final where
    a: "assemble env opts commits ctx JUndefined = Inr (filtered, assembled)"
    and f: "finalizeContext opts assembled filtered JUndefined commits = Inr final"
    and r: "render env final = Inr rendered"
    by blast
  from assemble_without_key[OF a] obtain cgs ngs where
    e: "assembled = JObj (patch_flag env
           (obj_put (obj_put (spread_into [] ctx) ''commitGroups'' cgs) ''noteGroups'' ngs))"
    by blast
  have k: "\<forall>k. k \<notin> {''commitGroups'', ''noteGroups'', ''isPatch''} \<longrightarrow>
              map_of (own_props assembled) k = map_of (spread_into [] ctx) k"
  proof (intro allI impI)
    fix k :: string
    assume "k \<notin> {''commitGroups'', ''noteGroups'', ''isPatch''}"
    then have "k \<noteq> ''commitGroups''" "k \<noteq> ''noteGroups''" "k \<noteq> ''isPatch''"
      by blast+
    with a show "map_of (own_props assembled) k = map_of (spread_into [] ctx) k"
      by (rule assembled_fields_without_key)
  qed
  have c: "assemble env opts commits ctx JUndefined = Inr (filtered, assembled) \<and>
         finalizeContext opts assembled filtered JUndefined commits = Inr final \<and>
         render env final = Inr rendered \<and>
         assembled = JObj (patch_flag env
           (obj_put (obj_put (spread_into [] ctx) ''commitGroups'' cgs) ''noteGroups'' ngs)) \<and>
         (\<forall>k. k \<notin> {''commitGroups'', ''noteGroups'', ''isPatch''} \<longrightarrow>
              map_of (own_props assembled) k = map_of (spread_into [] ctx) k)"
    using a f r e k by (intro conjI)
  show "\<exists>filtered assembled final cgs ngs.
         assemble env opts commits ctx JUndefined = Inr (filtered, assembled) \<and>
         finalizeContext opts assembled filtered JUndefined commits = Inr final \<and>
         render env final = Inr rendered \<and>
         assembled = JObj (patch_flag env
           (obj_put (obj_put (spread_into [] ctx) ''commitGroups'' cgs) ''noteGroups'' ngs)) \<and>
         (\<forall>k. k \<notin> {''commitGroups'', ''noteGroups'', ''isPatch''} \<longrightarrow>
              map_of (own_props assembled) k = map_of (spread_into [] ctx) k)"
    by (intro exI) (rule c)
qed

text \<open>
  C10 (witness). One ordinary commit, at which the default predicate does not hold,
  followed by a release chunk or by the end of the input, with details; the base context
  carries a date.
\<close>

theorem first_release_has_no_key_witness:
  "\<not> reverse (example_options\<lparr> includeDetails := True \<rparr>) \<and>
   run_loop example_env (example_options\<lparr> includeDetails := True \<rparr>)
     (JObj [(''date'', JStr ''2024-05-01'')]) initial_state [feat] =
     ([], Inr \<lparr> commitsGroup = [JObj [(''type'', JStr ''feat''), (''notes'', JArr [] []), (''raw'', feat)]],
                neverGenerated = True, savedKeyCommit = JUndefined, firstRelease = True \<rparr>) \<and>
   True \<notin> set (boundary_flags example_env (example_options\<lparr> includeDetails := True \<rparr>)
                  (JObj [(''date'', JStr ''2024-05-01'')]) initial_state [feat]) \<and>
   boundary_hit example_env (example_options\<lparr> includeDetails := True \<rparr>)
     (JObj [(''date'', JStr ''2024-05-01'')])
     \<lparr> commitsGroup = [JObj [(''type'', JStr ''feat''), (''notes'', JArr [] []), (''raw'', feat)]],
       neverGenerated = True, savedKeyCommit = JUndefined, firstRelease = True \<rparr>
     (release ''1.0.0'') \<and>
   step example_env (example_options\<lparr> includeDetails := True \<rparr>)
     (JObj [(''date'', JStr ''2024-05-01'')])
     \<lparr> commitsGroup = [JObj [(''type'', JStr ''feat''), (''notes'', JArr [] []), (''raw'', feat)]],
       neverGenerated = True, savedKeyCommit = JUndefined, firstRelease = True \<rparr>
     (release ''1.0.0'') =
     Inr (\<lparr> commitsGroup = [JObj [(''version'', JStr ''1.0.0''), (''notes'', JArr [] []),
                                   (''raw'', release ''1.0.0'')]],
            neverGenerated = False,
            savedKeyCommit = JObj [(''version'', JStr ''1.0.0''), (''notes'', JArr [] []),
                                   (''raw'', release ''1.0.0'')],
            firstRelease = False \<rparr>,
          [Details ''undefined'' JUndefined]) \<and>
   createChangelog example_env (example_options\<lparr> includeDetails := True \<rparr>)
     (JObj [(''date'', JStr ''2024-05-01'')]) [feat] = ([Details ''undefined'' JUndefined], None) \<and>
   generate example_env (example_options\<lparr> includeDetails := True \<rparr>)
     [JObj [(''type'', JStr ''feat''), (''notes'', JArr [] []), (''raw'', feat)]]
     (JObj [(''date'', JStr ''2024-05-01'')]) JUndefined = Inr ''undefined'' \<and>
   (\<exists>filtered assembled.
      assemble example_env (example_options\<lparr> includeDetails := True \<rparr>)
        [JObj [(''type'', JStr ''feat''), (''notes'', JArr [] []), (''raw'', feat)]]
        (JObj [(''date'', JStr ''2024-05-01'')]) JUndefined = Inr (filtered, assembled) \<and>
      map_of (own_props assembled) ''date'' = Some (JStr ''2024-05-01''))"
proof -
  let ?o = "example_options\<lparr> includeDetails := True \<rparr>"
  let ?c = "JObj [(''type'', JStr ''feat''), (''notes'', JArr [] []), (''raw'', feat)]"
  let ?k = "JObj [(''version'', JStr ''1.0.0''), (''notes'', JArr [] []), (''raw'', release ''1.0.0'')]"
  let ?s = "\<lparr> commitsGroup = [?c], neverGenerated = True, savedKeyCommit = JUndefined, firstRelease = True \<rparr>"
  let ?s' = "\<lparr> commitsGroup = [?k], neverGenerated = False, savedKeyCommit = ?k, firstRelease = False \<rparr>"
  let ?ctx = "JObj [(''date'', JStr ''2024-05-01'')]"
  have v: "\<not> reverse ?o"
    by (simp add: example_options_def)
  have r: "run_loop example_env ?o ?ctx initial_state [feat] = ([], Inr ?s)"
    by (simp add: eval_engine eval_assemble eval_grouping feat_def)
  have nb: "True \<notin> set (boundary_flags example_env ?o ?ctx initial_state [feat])"
    by (simp add: eval_engine eval_assemble eval_grouping feat_def)
  have st: "step example_env ?o ?ctx ?s (release ''1.0.0'') = Inr (?s', [Details ''undefined'' JUndefined])"
    by (simp add: eval_engine eval_assemble eval_grouping feat_def release_def)
  have b: "boundary_hit example_env ?o ?ctx ?s (release ''1.0.0'')"
    by (simp add: eval_engine eval_assemble eval_grouping release_def)
  have g: "generate example_env ?o [?c] ?ctx JUndefined = Inr ''undefined''"
    by (simp add: eval_engine eval_assemble eval_grouping feat_def)
  have fl: "doFlush ?o" "includeDetails ?o"
    by (simp_all add: example_options_def)
  have h1: "\<not> reverse ?o \<and> run_loop example_env ?o ?ctx initial_state [feat] = ([], Inr ?s) \<and>
      True \<notin> set (boundary_flags example_env ?o ?ctx initial_state [feat])"
    using v r nb by (intro conjI)
  note run = first_release_has_no_key[where opts="?o" and env=example_env and ctx="?ctx"
      and chunks="[feat]" and out="[]" and s="?s" and commits="[?c]" and rendered="''undefined''"]
  note run1 = run[THEN conjunct1, THEN mp, OF h1]
  have w: "\<exists>result. generate example_env ?o (commitsGroup ?s) ?ctx JUndefined = Inr result \<and>
      [Details ''undefined'' JUndefined] =
        (if doFlush ?o then [if includeDetails ?o then Details result JUndefined else Plain result]
         else [])"
    by (rule run1[THEN conjunct2, THEN conjunct2, THEN conjunct2, THEN conjunct1,
          THEN spec, THEN spec, THEN spec, THEN mp, OF conjI[OF b st]])
  have c: "createChangelog example_env ?o ?ctx [feat] = ([Details ''undefined'' JUndefined], None)"
    using run1[THEN conjunct2, THEN conjunct2, THEN conjunct2, THEN conjunct2] g fl
    by simp
  from run[THEN conjunct2, THEN mp, OF g] obtain filtered assembled where
    a: "assemble example_env ?o [?c] ?ctx JUndefined = Inr (filtered, assembled)"
    and k: "\<forall>k. k \<notin> {''commitGroups'', ''noteGroups'', ''isPatch''} \<longrightarrow>
              map_of (own_props assembled) k = map_of (spread_into [] ?ctx) k"
    by blast
  have d0: "''date'' \<notin> {''commitGroups'', ''noteGroups'', ''isPatch''}"
    by simp
  have "map_of (own_props assembled) ''date'' = map_of (spread_into [] ?ctx) ''date''"
    by (rule k[THEN spec, THEN mp, OF d0])
  then have d: "map_of (own_props assembled) ''date'' = Some (JStr ''2024-05-01'')"
    by (simp add: spread_into_def obj_put_def array_index_def digit_val_def)
  from a d have e: "\<exists>filtered assembled.
      assemble example_env ?o [?c] ?ctx JUndefined = Inr (filtered, assembled) \<and>
      map_of (own_props assembled) ''date'' = Some (JStr ''2024-05-01'')"
    by blast
  from v r nb b st c g e show ?thesis
    by (intro conjI)
qed

end
